theory Spec2Isabelle
  imports Complex_Main
begin

section \<open>Numbers of the source language\<close>

text \<open>
  The library \<^verbatim>\<open>src/app/src/lib/conviction.js\<close> computes with JavaScript numbers.
  A number is modelled as a finite value or one of the three special values of
  IEEE 754 arithmetic; the sign of zero is not part of the model. The special values
  follow the language: an undefined operation (\<^verbatim>\<open>0/0\<close>, \<^verbatim>\<open>Infinity - Infinity\<close>,
  \<^verbatim>\<open>0 * Infinity\<close>, the logarithm of a negative number) yields \<^verbatim>\<open>NaN\<close>, and \<^verbatim>\<open>NaN\<close> is
  absorbing and compares false with everything.

  The operations come in two layers. \<open>js_add\<close>, \<open>js_mul\<close>, \<open>js_div\<close>, \<open>js_pow\<close> and
  \<open>js_log\<close> give the exact result on finite values. \<open>dbl_add\<close>, \<open>dbl_mul\<close>, \<open>dbl_div\<close>,
  \<open>dbl_pow\<close> and \<open>dbl_log\<close> round that result to binary64, to nearest with ties to even,
  with overflow to an infinity and gradual underflow, which is what the language computes
  on doubles.
\<close>

datatype jsnum = Num real | PosInf | NegInf | NaN

fun js_neg :: "jsnum \<Rightarrow> jsnum" where
  "js_neg (Num a) = Num (- a)"
| "js_neg PosInf = NegInf"
| "js_neg NegInf = PosInf"
| "js_neg NaN = NaN"

fun js_add :: "jsnum \<Rightarrow> jsnum \<Rightarrow> jsnum" where
  "js_add NaN y = NaN"
| "js_add x NaN = NaN"
| "js_add (Num a) (Num b) = Num (a + b)"
| "js_add PosInf NegInf = NaN"
| "js_add NegInf PosInf = NaN"
| "js_add PosInf y = PosInf"
| "js_add x PosInf = PosInf"
| "js_add NegInf y = NegInf"
| "js_add x NegInf = NegInf"

definition js_sub :: "jsnum \<Rightarrow> jsnum \<Rightarrow> jsnum" where
  "js_sub x y = js_add x (js_neg y)"

text \<open>The sign of a number that is not \<^verbatim>\<open>NaN\<close>: \<open>-1\<close>, \<open>0\<close> or \<open>1\<close>.\<close>

fun js_sign :: "jsnum \<Rightarrow> int" where
  "js_sign (Num a) = (if a < 0 then - 1 else if a = 0 then 0 else 1)"
| "js_sign PosInf = 1"
| "js_sign NegInf = - 1"
| "js_sign NaN = 0"

definition signed_inf :: "int \<Rightarrow> jsnum" where
  "signed_inf s = (if s = 0 then NaN else if 0 < s then PosInf else NegInf)"

fun js_mul :: "jsnum \<Rightarrow> jsnum \<Rightarrow> jsnum" where
  "js_mul NaN y = NaN"
| "js_mul x NaN = NaN"
| "js_mul (Num a) (Num b) = Num (a * b)"
| "js_mul x y = signed_inf (js_sign x * js_sign y)"

text \<open>
  Division of a finite non-zero number by zero gives the infinity with the sign of the
  dividend (the zero is taken as positive), \<^verbatim>\<open>0/0\<close> and \<^verbatim>\<open>Infinity/Infinity\<close> give
  \<^verbatim>\<open>NaN\<close>, a finite number over an infinity gives zero.
\<close>

fun js_div :: "jsnum \<Rightarrow> jsnum \<Rightarrow> jsnum" where
  "js_div NaN y = NaN"
| "js_div x NaN = NaN"
| "js_div (Num a) (Num b) = (if b = 0 then signed_inf (js_sign (Num a)) else Num (a / b))"
| "js_div (Num a) y = Num 0"
| "js_div x (Num b) = signed_inf (js_sign x * (if b < 0 then - 1 else 1))"
| "js_div x y = NaN"

fun js_lt :: "jsnum \<Rightarrow> jsnum \<Rightarrow> bool" where
  "js_lt NaN y = False"
| "js_lt x NaN = False"
| "js_lt (Num a) (Num b) = (a < b)"
| "js_lt x NegInf = False"
| "js_lt PosInf y = False"
| "js_lt NegInf y = True"
| "js_lt x PosInf = True"

text \<open>\<^verbatim>\<open>x >= y\<close>: false as soon as an operand is \<^verbatim>\<open>NaN\<close>.\<close>

fun js_ge :: "jsnum \<Rightarrow> jsnum \<Rightarrow> bool" where
  "js_ge NaN y = False"
| "js_ge x NaN = False"
| "js_ge x y = (\<not> js_lt x y)"

text \<open>
  \<^verbatim>\<open>a ** t\<close> for an integer exponent, which is all the library raises to: a difference of
  block numbers, a tick counter, or the literal \<^verbatim>\<open>2\<close>. Any base to the power \<open>0\<close> is
  \<open>1\<close>, also \<^verbatim>\<open>NaN\<close>.
\<close>

fun js_pow :: "jsnum \<Rightarrow> int \<Rightarrow> jsnum" where
  "js_pow (Num a) t =
     (if t = 0 then Num 1
      else if a = 0 \<and> t < 0 then PosInf
      else Num (a powi t))"
| "js_pow PosInf t = (if t = 0 then Num 1 else if 0 < t then PosInf else Num 0)"
| "js_pow NegInf t =
     (if t = 0 then Num 1
      else if t < 0 then Num 0
      else if even t then PosInf else NegInf)"
| "js_pow NaN t = (if t = 0 then Num 1 else NaN)"

text \<open>\<^verbatim>\<open>Math.log\<close>, the natural logarithm.\<close>

fun js_log :: "jsnum \<Rightarrow> jsnum" where
  "js_log (Num a) = (if a < 0 then NaN else if a = 0 then NegInf else Num (ln a))"
| "js_log PosInf = PosInf"
| "js_log NegInf = NaN"
| "js_log NaN = NaN"

subsection \<open>Rounding to binary64\<close>

text \<open>The nearest integer, the even one of the two when \<open>q\<close> lies half way.\<close>

definition round_even :: "real \<Rightarrow> int" where
  "round_even q =
     (let f = \<lfloor>q\<rfloor>; d = q - of_int f
      in if d < 1 / 2 then f else if 1 / 2 < d then f + 1 else if even f then f else f + 1)"

text \<open>The binary exponent of a positive number: \<open>2 powi e \<le> x < 2 powi (e + 1)\<close>.\<close>

definition exponent :: "real \<Rightarrow> int" where
  "exponent x = (if x \<le> 0 then 0 else \<lfloor>log 2 x\<rfloor>)"

text \<open>
  A double has 53 significant bits and an exponent of at least \<open>-1022\<close>, so the doubles
  around \<open>x\<close> are the multiples of \<open>2 powi (e - 52)\<close>, for the exponent \<open>e\<close> of \<open>x\<close> or
  \<open>-1022\<close> if that is larger (the subnormal range). The rounded value is an infinity
  when it reaches \<open>2 ^ 1024\<close>.
\<close>

definition round_double :: "real \<Rightarrow> jsnum" where
  "round_double x =
     (if x = 0 then Num 0
      else (let e = max (exponent \<bar>x\<bar>) (- 1022);
                r = of_int (round_even (x / 2 powi (e - 52))) * 2 powi (e - 52)
            in if \<bar>r\<bar> < 2 ^ 1024 then Num r else if 0 < x then PosInf else NegInf))"

definition is_double :: "real \<Rightarrow> bool" where
  "is_double x = (round_double x = Num x)"

fun rounded :: "jsnum \<Rightarrow> jsnum" where
  "rounded (Num a) = round_double a"
| "rounded PosInf = PosInf"
| "rounded NegInf = NegInf"
| "rounded NaN = NaN"

definition dbl_add :: "jsnum \<Rightarrow> jsnum \<Rightarrow> jsnum" where
  "dbl_add x y = rounded (js_add x y)"

definition dbl_sub :: "jsnum \<Rightarrow> jsnum \<Rightarrow> jsnum" where
  "dbl_sub x y = rounded (js_sub x y)"

definition dbl_mul :: "jsnum \<Rightarrow> jsnum \<Rightarrow> jsnum" where
  "dbl_mul x y = rounded (js_mul x y)"

definition dbl_div :: "jsnum \<Rightarrow> jsnum \<Rightarrow> jsnum" where
  "dbl_div x y = rounded (js_div x y)"

definition dbl_pow :: "jsnum \<Rightarrow> int \<Rightarrow> jsnum" where
  "dbl_pow x t = rounded (js_pow x t)"

text \<open>
  The language leaves the last bits of \<^verbatim>\<open>Math.log\<close> to the implementation; here it is
  the rounded logarithm. What is proved below uses its special cases and its sign only.
\<close>

definition dbl_log :: "jsnum \<Rightarrow> jsnum" where
  "dbl_log x = rounded (js_log x)"

text \<open>
  A value that may be \<^verbatim>\<open>undefined\<close> is an option; used as an operand of arithmetic,
  \<^verbatim>\<open>undefined\<close> converts to \<^verbatim>\<open>NaN\<close>.
\<close>

fun to_number :: "jsnum option \<Rightarrow> jsnum" where
  "to_number None = NaN"
| "to_number (Some x) = x"

text \<open>
  \<^verbatim>\<open>a % b\<close> on integers: the result has the sign of the dividend, and a zero divisor
  gives \<^verbatim>\<open>NaN\<close> (here \<open>None\<close>), which is not \<^verbatim>\<open>=== 0\<close>.
\<close>

definition js_rem :: "int \<Rightarrow> int \<Rightarrow> int option" where
  "js_rem a b = (if b = 0 then None else Some (sgn a * (\<bar>a\<bar> mod \<bar>b\<bar>)))"

text \<open>The value of \<^verbatim>\<open>[...xs].pop()\<close>: the last element of a copy, \<^verbatim>\<open>undefined\<close> on an empty array.\<close>

fun spread_pop :: "'a list \<Rightarrow> 'a option" where
  "spread_pop [] = None"
| "spread_pop (x # xs) = Some (last (x # xs))"

section \<open>Data model\<close>

text \<open>
  A stake event as the functions read it: every function but \<^verbatim>\<open>stakesByEntity\<close> reads
  the three fields of \<open>stake\<close> only, so it accepts any extension of that record; the
  events of the full ledger carry the staking entity and its own amount as well.
  Times are block numbers, so \<open>time\<close>, \<^verbatim>\<open>currentTime\<close> and \<^verbatim>\<open>timeUnit\<close> are integers;
  amounts and convictions are numbers.
\<close>

record stake =
  time :: int
  totalTokensStaked :: jsnum
  conviction :: jsnum

record stake_event = stake +
  entity :: string
  tokensStaked :: jsnum

section \<open>The decay formula and the point-in-time queries\<close>

text \<open>
  The decay formula is given over the exact operations. What is proved of it below is
  either relative to \<open>calculateConviction\<close> itself or rests on \<^verbatim>\<open>a ** 0 = 1\<close>,
  \<^verbatim>\<open>x * 0 = 0\<close> and the absorption of \<^verbatim>\<open>NaN\<close>, which rounding leaves as they are.
\<close>

definition calculateConviction :: "int \<Rightarrow> jsnum \<Rightarrow> jsnum \<Rightarrow> jsnum \<Rightarrow> jsnum" where
  "calculateConviction timePassed initConv amount alpha =
     (let t = timePassed; y0 = initConv; x = amount; a = alpha
      in js_add (js_mul y0 (js_pow a t))
                (js_div (js_mul x (js_sub (Num 1) (js_pow a t))) (js_sub (Num 1) a)))"

definition getCurrentConviction :: "('a stake_scheme) list \<Rightarrow> int \<Rightarrow> jsnum \<Rightarrow> jsnum" where
  "getCurrentConviction stakes currentTime alpha =
     (case spread_pop stakes of
        Some lastStake \<Rightarrow>
          calculateConviction (currentTime - time lastStake) (conviction lastStake)
            (totalTokensStaked lastStake) alpha
      | None \<Rightarrow> Num 0)"

text \<open>
  \<^verbatim>\<open>convictionFromStakes\<close> folds the events from the triple \<^verbatim>\<open>[0, 0, 0]\<close> of conviction,
  time and amount, and returns the final triple as an object.
\<close>

definition conviction_step ::
  "jsnum \<Rightarrow> jsnum \<times> int \<times> jsnum \<Rightarrow> 'a stake_scheme \<Rightarrow> jsnum \<times> int \<times> jsnum" where
  "conviction_step alpha acc stake =
     (case acc of (lastConv, lastTime, oldAmount) \<Rightarrow>
        (let amount = totalTokensStaked stake;
             timePassed = time stake - lastTime
         in (calculateConviction timePassed lastConv oldAmount alpha, time stake, amount)))"

definition convictionFromStakes :: "('a stake_scheme) list \<Rightarrow> jsnum \<Rightarrow> stake" where
  "convictionFromStakes stakes alpha =
     (case foldl (conviction_step alpha) (Num 0, 0, Num 0) stakes of
        (conv, tm, amt) \<Rightarrow> \<lparr>time = tm, totalTokensStaked = amt, conviction = conv\<rparr>)"

definition stakesByEntity :: "stake_event list \<Rightarrow> string \<Rightarrow> stake list" where
  "stakesByEntity stakes ent =
     map (\<lambda>s. \<lparr>time = time s, totalTokensStaked = tokensStaked s, conviction = conviction s\<rparr>)
       (filter (\<lambda>s. ent = entity s) stakes)"

definition getCurrentConvictionByEntity ::
  "stake_event list \<Rightarrow> string \<Rightarrow> int \<Rightarrow> jsnum \<Rightarrow> jsnum" where
  "getCurrentConvictionByEntity stakes ent currentTime alpha =
     (let entityStakes = stakesByEntity stakes ent
      in if 0 < length entityStakes
         then (let r = convictionFromStakes entityStakes alpha
               in calculateConviction (currentTime - time r) (conviction r)
                    (totalTokensStaked r) alpha)
         else Num 0)"

section \<open>Threshold algebra\<close>

text \<open>
  The threshold functions are given over the operations on doubles: what they return
  where a comparison or a sign is decided by the last bit depends on the rounding.
\<close>

definition getRemainingTimeToPass :: "jsnum \<Rightarrow> jsnum \<Rightarrow> jsnum \<Rightarrow> jsnum \<Rightarrow> jsnum" where
  "getRemainingTimeToPass threshold conv amount alpha =
     (let a = alpha; y = threshold; y0 = conv; x = amount
      in dbl_div
           (dbl_log (dbl_div (dbl_add (dbl_mul (dbl_sub a (Num 1)) y) x)
                             (dbl_add (dbl_mul (dbl_sub a (Num 1)) y0) x)))
           (dbl_log a))"

definition calculateThreshold ::
  "jsnum \<Rightarrow> jsnum \<Rightarrow> jsnum \<Rightarrow> jsnum \<Rightarrow> jsnum \<Rightarrow> jsnum \<Rightarrow> jsnum" where
  "calculateThreshold requested funds supply alpha beta rho =
     (let share = dbl_div requested funds
      in if js_lt share beta
         then dbl_div (dbl_div (dbl_mul rho supply) (dbl_sub (Num 1) alpha))
                      (dbl_pow (dbl_sub beta share) 2)
         else PosInf)"


definition getMaxConviction :: "jsnum \<Rightarrow> jsnum \<Rightarrow> jsnum" where
  "getMaxConviction amount alpha =
     (let x = amount; a = alpha in dbl_div x (dbl_sub (Num 1) a))"

section \<open>History sampling\<close>

text \<open>
  The first loop of \<^verbatim>\<open>getConvictionHistory\<close>: while \<^verbatim>\<open>initTime\<close> is negative, push a
  zero at every multiple of \<^verbatim>\<open>timeUnit\<close> and advance. It returns the history and the
  final \<^verbatim>\<open>initTime\<close>.
\<close>

function pad_zeros :: "int \<Rightarrow> int \<Rightarrow> jsnum list \<Rightarrow> jsnum list \<times> int" where
  "pad_zeros timeUnit initTime hist =
     (if initTime < 0
      then pad_zeros timeUnit (initTime + 1)
             (if js_rem initTime timeUnit = Some 0 then hist @ [Num 0] else hist)
      else (hist, initTime))"
  by pat_completeness auto
termination
  by (relation "measure (\<lambda>(timeUnit, initTime, hist). nat (- initTime))") auto

declare pad_zeros.simps [simp del]

text \<open>
  The variables of the main loop. \<open>lastConv\<close> is an option because
  \<^verbatim>\<open>[...history].pop()\<close> is \<^verbatim>\<open>undefined\<close> on an empty history; \<open>ix\<close> is the index
  \<^verbatim>\<open>i\<close> into \<^verbatim>\<open>recentStakes\<close>.
\<close>

record loop_state =
  history :: "jsnum list"
  oldAmount :: jsnum
  lastConv :: "jsnum option"
  timePassed :: int
  ix :: nat

text \<open>The inner loop: consume every recent stake whose time has come.\<close>

function consume :: "('a stake_scheme) list \<Rightarrow> int \<Rightarrow> loop_state \<Rightarrow> loop_state" where
  "consume recentStakes t s =
     (if ix s < length recentStakes \<and> time (recentStakes ! ix s) \<le> t
      then consume recentStakes t
             (s\<lparr>oldAmount := totalTokensStaked (recentStakes ! ix s),
                ix := ix s + 1,
                timePassed := 0,
                lastConv := spread_pop (history s)\<rparr>)
      else s)"
  by pat_completeness auto
termination
  by (relation "measure (\<lambda>(recentStakes, t, s). length recentStakes - ix s)") auto

declare consume.simps [simp del]

text \<open>One iteration of the main loop, at tick \<open>t\<close>.\<close>

definition tick ::
  "('a stake_scheme) list \<Rightarrow> jsnum \<Rightarrow> int \<Rightarrow> int \<Rightarrow> loop_state \<Rightarrow> loop_state" where
  "tick recentStakes alpha timeUnit t s =
     (let s1 = (if js_rem t timeUnit = Some 0
                then s\<lparr>history := history s @
                       [calculateConviction (timePassed s) (to_number (lastConv s))
                          (oldAmount s) alpha]\<rparr>
                else s);
          s2 = consume recentStakes t s1
      in s2\<lparr>timePassed := timePassed s2 + 1\<rparr>)"

function for_loop ::
  "('a stake_scheme) list \<Rightarrow> jsnum \<Rightarrow> int \<Rightarrow> int \<Rightarrow> int \<Rightarrow> loop_state \<Rightarrow> loop_state" where
  "for_loop recentStakes alpha timeUnit currentTime t s =
     (if t \<le> currentTime
      then for_loop recentStakes alpha timeUnit currentTime (t + 1)
             (tick recentStakes alpha timeUnit t s)
      else s)"
  by pat_completeness auto
termination
  by (relation "measure (\<lambda>(recentStakes, alpha, timeUnit, currentTime, t, s).
                   nat (currentTime + 1 - t))") auto

declare for_loop.simps [simp del]

text \<open>
  The state in which the main loop starts: the checkpoint of the last old stake (or
  zeros), carried to \<^verbatim>\<open>initTime\<close> by the decay formula.
\<close>

definition init_state ::
  "('a stake_scheme) list \<Rightarrow> jsnum \<Rightarrow> int \<Rightarrow> jsnum list \<Rightarrow> loop_state" where
  "init_state oldStakes alpha initTime hist =
     (let (amt, conv, lastTime) =
            (case spread_pop oldStakes of
               Some st \<Rightarrow> (totalTokensStaked st, conviction st, time st)
             | None \<Rightarrow> (Num 0, Num 0, 0))
      in \<lparr>history = hist, oldAmount = amt,
          lastConv = Some (calculateConviction (initTime - lastTime) conv amt alpha),
          timePassed = 0, ix = 0\<rparr>)"

definition getConvictionHistory ::
  "('a stake_scheme) list \<Rightarrow> int \<Rightarrow> jsnum \<Rightarrow> int \<Rightarrow> jsnum list" where
  "getConvictionHistory stakes currentTime alpha timeUnit =
     (let (hist, initTime) = pad_zeros timeUnit (currentTime - 50 * timeUnit - 1) [];
          oldStakes = filter (\<lambda>st. time st \<le> initTime) stakes;
          recentStakes = filter (\<lambda>st. initTime < time st) stakes
      in history (for_loop recentStakes alpha timeUnit currentTime initTime
                    (init_state oldStakes alpha initTime hist)))"

definition getConvictionHistoryByEntity ::
  "stake_event list \<Rightarrow> string \<Rightarrow> int \<Rightarrow> jsnum \<Rightarrow> int \<Rightarrow> jsnum list" where
  "getConvictionHistoryByEntity stakes ent tm alpha timeUnit =
     getConvictionHistory (stakesByEntity stakes ent) tm alpha timeUnit"

section \<open>The functions on a store of arrays\<close>

text \<open>
  The functions above compute with the contents of arrays. To say which arrays a call
  writes to, the same functions are given once more over a store: an array is known by
  its address, the store lists the contents of the arrays by address, and an argument or
  variable that holds an array holds its address. A new array (a literal, a spread
  \<^verbatim>\<open>[...a]\<close>, the result of \<^verbatim>\<open>filter\<close> or \<^verbatim>\<open>map\<close>) takes the next free address;
  \<^verbatim>\<open>push\<close> and \<^verbatim>\<open>pop\<close> change the array they are called on, in place. One store holds
  the arrays of one type of element.
\<close>

type_synonym 'a store = "'a list list"

definition alloc :: "'a list \<Rightarrow> 'a store \<Rightarrow> nat \<times> 'a store" where
  "alloc xs st = (length st, st @ [xs])"

text \<open>\<^verbatim>\<open>[...a]\<close>: a new array with the elements of \<open>a\<close>.\<close>

definition spread :: "nat \<Rightarrow> 'a store \<Rightarrow> nat \<times> 'a store" where
  "spread a st = alloc (st ! a) st"

text \<open>\<^verbatim>\<open>a.pop()\<close>: removes the last element of \<open>a\<close> and returns it, \<^verbatim>\<open>undefined\<close> if there is none.\<close>

definition pop :: "nat \<Rightarrow> 'a store \<Rightarrow> 'a option \<times> 'a store" where
  "pop a st = (spread_pop (st ! a), st[a := butlast (st ! a)])"

text \<open>\<^verbatim>\<open>a.push(v)\<close>.\<close>

definition push :: "nat \<Rightarrow> 'a \<Rightarrow> 'a store \<Rightarrow> 'a store" where
  "push a v st = st[a := st ! a @ [v]]"

text \<open>\<^verbatim>\<open>a.filter(p)\<close>: a new array.\<close>

definition filter_array :: "('a \<Rightarrow> bool) \<Rightarrow> nat \<Rightarrow> 'a store \<Rightarrow> nat \<times> 'a store" where
  "filter_array p a st = alloc (filter p (st ! a)) st"

definition getCurrentConviction_st ::
  "nat \<Rightarrow> int \<Rightarrow> jsnum \<Rightarrow> ('a stake_scheme) store \<Rightarrow> jsnum \<times> ('a stake_scheme) store" where
  "getCurrentConviction_st stakes currentTime alpha objs =
     (let (copy, objs1) = spread stakes objs;
          (lastStake, objs2) = pop copy objs1
      in (case lastStake of
            Some l \<Rightarrow>
              calculateConviction (currentTime - time l) (conviction l) (totalTokensStaked l) alpha
          | None \<Rightarrow> Num 0,
          objs2))"

text \<open>\<^verbatim>\<open>reduce\<close> reads the array and builds the triple; the object returned is a new value.\<close>

definition convictionFromStakes_st ::
  "nat \<Rightarrow> jsnum \<Rightarrow> ('a stake_scheme) store \<Rightarrow> stake \<times> ('a stake_scheme) store" where
  "convictionFromStakes_st stakes alpha objs =
     (case foldl (conviction_step alpha) (Num 0, 0, Num 0) (objs ! stakes) of
        (conv, tm, amt) \<Rightarrow> (\<lparr>time = tm, totalTokensStaked = amt, conviction = conv\<rparr>, objs))"

text \<open>
  \<^verbatim>\<open>stakesByEntity\<close> filters the events into a new array of events and maps that into a
  new array of stakes, in the store of the stakes.
\<close>

definition stakesByEntity_st ::
  "nat \<Rightarrow> string \<Rightarrow> stake_event store \<times> stake store \<Rightarrow>
     nat \<times> (stake_event store \<times> stake store)" where
  "stakesByEntity_st stakes ent h =
     (case h of (evs, sts) \<Rightarrow>
        (let (filtered, evs1) = filter_array (\<lambda>s. ent = entity s) stakes evs;
             (mapped, sts1) =
               alloc (map (\<lambda>s. \<lparr>time = time s, totalTokensStaked = tokensStaked s,
                                 conviction = conviction s\<rparr>) (evs1 ! filtered)) sts
         in (mapped, (evs1, sts1))))"

definition getCurrentConvictionByEntity_st ::
  "nat \<Rightarrow> string \<Rightarrow> int \<Rightarrow> jsnum \<Rightarrow> stake_event store \<times> stake store \<Rightarrow>
     jsnum \<times> (stake_event store \<times> stake store)" where
  "getCurrentConvictionByEntity_st stakes ent currentTime alpha h =
     (let (entityStakes, (evs1, sts1)) = stakesByEntity_st stakes ent h
      in if 0 < length (sts1 ! entityStakes)
         then (let (r, sts2) = convictionFromStakes_st entityStakes alpha sts1
               in (calculateConviction (currentTime - time r) (conviction r)
                     (totalTokensStaked r) alpha,
                   (evs1, sts2)))
         else (Num 0, (evs1, sts1)))"

text \<open>
  The history sampling: \<open>hist\<close> is the address of the array \<^verbatim>\<open>history\<close> in the store of
  numbers, \<open>recentStakes\<close> the address of the recent stakes in the store of stakes, which
  the loops read and do not write.
\<close>

function pad_zeros_st :: "int \<Rightarrow> int \<Rightarrow> nat \<Rightarrow> jsnum store \<Rightarrow> jsnum store \<times> int" where
  "pad_zeros_st timeUnit initTime hist nums =
     (if initTime < 0
      then pad_zeros_st timeUnit (initTime + 1) hist
             (if js_rem initTime timeUnit = Some 0 then push hist (Num 0) nums else nums)
      else (nums, initTime))"
  by pat_completeness auto
termination
  by (relation "measure (\<lambda>(timeUnit, initTime, hist, nums). nat (- initTime))") auto

declare pad_zeros_st.simps [simp del]

record loop_vars =
  var_oldAmount :: jsnum
  var_lastConv :: "jsnum option"
  var_timePassed :: int
  var_i :: nat

function consume_st ::
  "('a stake_scheme) store \<Rightarrow> nat \<Rightarrow> nat \<Rightarrow> int \<Rightarrow> loop_vars \<times> jsnum store \<Rightarrow>
     loop_vars \<times> jsnum store" where
  "consume_st objs recentStakes hist t vn =
     (case vn of (v, nums) \<Rightarrow>
        if var_i v < length (objs ! recentStakes) \<and> time (objs ! recentStakes ! var_i v) \<le> t
        then (let (copy, nums1) = spread hist nums;
                  (popped, nums2) = pop copy nums1
              in consume_st objs recentStakes hist t
                   (v\<lparr>var_oldAmount := totalTokensStaked (objs ! recentStakes ! var_i v),
                      var_i := var_i v + 1,
                      var_timePassed := 0,
                      var_lastConv := popped\<rparr>,
                    nums2))
        else (v, nums))"
  by pat_completeness auto
termination
  by (relation "measure (\<lambda>(objs, recentStakes, hist, t, v, nums).
                   length (objs ! recentStakes) - var_i v)")
     (auto simp add: spread_def alloc_def pop_def)

declare consume_st.simps [simp del]

definition tick_st ::
  "('a stake_scheme) store \<Rightarrow> nat \<Rightarrow> nat \<Rightarrow> jsnum \<Rightarrow> int \<Rightarrow> int \<Rightarrow>
     loop_vars \<times> jsnum store \<Rightarrow> loop_vars \<times> jsnum store" where
  "tick_st objs recentStakes hist alpha timeUnit t vn =
     (case vn of (v, nums) \<Rightarrow>
        (let nums1 = (if js_rem t timeUnit = Some 0
                      then push hist
                             (calculateConviction (var_timePassed v) (to_number (var_lastConv v))
                                (var_oldAmount v) alpha) nums
                      else nums);
             (v2, nums2) = consume_st objs recentStakes hist t (v, nums1)
         in (v2\<lparr>var_timePassed := var_timePassed v2 + 1\<rparr>, nums2)))"

function for_loop_st ::
  "('a stake_scheme) store \<Rightarrow> nat \<Rightarrow> nat \<Rightarrow> jsnum \<Rightarrow> int \<Rightarrow> int \<Rightarrow> int \<Rightarrow>
     loop_vars \<times> jsnum store \<Rightarrow> loop_vars \<times> jsnum store" where
  "for_loop_st objs recentStakes hist alpha timeUnit currentTime t vn =
     (if t \<le> currentTime
      then for_loop_st objs recentStakes hist alpha timeUnit currentTime (t + 1)
             (tick_st objs recentStakes hist alpha timeUnit t vn)
      else vn)"
  by pat_completeness auto
termination
  by (relation "measure (\<lambda>(objs, recentStakes, hist, alpha, timeUnit, currentTime, t, vn).
                   nat (currentTime + 1 - t))") auto

declare for_loop_st.simps [simp del]

text \<open>The result is the address of the new array \<^verbatim>\<open>history\<close>, with the stores after the call.\<close>

definition getConvictionHistory_st ::
  "nat \<Rightarrow> int \<Rightarrow> jsnum \<Rightarrow> int \<Rightarrow> ('a stake_scheme) store \<times> jsnum store \<Rightarrow>
     nat \<times> (('a stake_scheme) store \<times> jsnum store)" where
  "getConvictionHistory_st stakes currentTime alpha timeUnit h =
     (case h of (objs, nums) \<Rightarrow>
        (let (hist, nums1) = alloc [] nums;
             (nums2, initTime) = pad_zeros_st timeUnit (currentTime - 50 * timeUnit - 1) hist nums1;
             (copy1, objs1) = spread stakes objs;
             (oldStakes, objs2) = filter_array (\<lambda>st. time st \<le> initTime) copy1 objs1;
             (copy2, objs3) = spread stakes objs2;
             (recentStakes, objs4) = filter_array (\<lambda>st. initTime < time st) copy2 objs3;
             (copy3, objs5) = spread oldStakes objs4;
             (popped, objs6) = pop copy3 objs5;
             (amt, conv, lastTime) =
               (case popped of
                  Some st \<Rightarrow> (totalTokensStaked st, conviction st, time st)
                | None \<Rightarrow> (Num 0, Num 0, 0));
             v0 = \<lparr>var_oldAmount = amt,
                   var_lastConv = Some (calculateConviction (initTime - lastTime) conv amt alpha),
                   var_timePassed = 0, var_i = 0\<rparr>;
             (v, nums3) = for_loop_st objs6 recentStakes hist alpha timeUnit currentTime initTime
                            (v0, nums2)
         in (hist, (objs6, nums3))))"

definition getConvictionHistoryByEntity_st ::
  "nat \<Rightarrow> string \<Rightarrow> int \<Rightarrow> jsnum \<Rightarrow> int \<Rightarrow>
     stake_event store \<times> stake store \<times> jsnum store \<Rightarrow>
     nat \<times> (stake_event store \<times> stake store \<times> jsnum store)" where
  "getConvictionHistoryByEntity_st stakes ent tm alpha timeUnit h =
     (case h of (evs, sts, nums) \<Rightarrow>
        (let (entityStakes, (evs1, sts1)) = stakesByEntity_st stakes ent (evs, sts);
             (hist, (sts2, nums1)) =
               getConvictionHistory_st entityStakes tm alpha timeUnit (sts1, nums)
         in (hist, (evs1, sts2, nums1))))"

text \<open>
  A store extends another when it has, address by address, the same arrays, and possibly
  more.
\<close>

definition extends :: "'a store \<Rightarrow> 'a store \<Rightarrow> bool" where
  "extends st st' = (length st \<le> length st' \<and> take (length st) st' = st)"

text \<open>The variables of the loop on a store, with the contents of \<^verbatim>\<open>history\<close>, as a loop state.\<close>

definition loop_state_of :: "nat \<Rightarrow> loop_vars \<times> jsnum store \<Rightarrow> loop_state" where
  "loop_state_of hist vn =
     (case vn of (v, nums) \<Rightarrow>
        \<lparr>history = nums ! hist, oldAmount = var_oldAmount v, lastConv = var_lastConv v,
          timePassed = var_timePassed v, ix = var_i v\<rparr>)"

section \<open>Facts about the arithmetic\<close>

lemma calculateConviction_NaN [simp]: "calculateConviction t NaN x a = NaN"
  by (simp add: calculateConviction_def)

subsection \<open>Rounding\<close>

lemma exponent_bounds:
  assumes "0 < x"
  shows "2 powi (exponent x) \<le> x \<and> x < 2 powi (exponent x + 1)"
proof -
  have p: "(2::real) powr (of_int k) = 2 powi k" for k
    by (simp add: powr_real_of_int')
  have "2 powr (of_int \<lfloor>log 2 x\<rfloor>) \<le> x \<and> x < 2 powr (of_int (\<lfloor>log 2 x\<rfloor> + 1))"
    using floor_log_eq_powr_iff [of x 2 "\<lfloor>log 2 x\<rfloor>"] assms by simp
  then show ?thesis
    using assms by (simp only: p) (simp add: exponent_def)
qed

lemma exponent_eqI:
  assumes "2 powi e \<le> x" and "x < 2 powi (e + 1)"
  shows "exponent x = e"
proof -
  have pos: "0 < x"
    using assms(1) by (rule less_le_trans [rotated]) simp
  have p: "(2::real) powr (of_int k) = 2 powi k" for k
    by (simp add: powr_real_of_int')
  have "2 powr (of_int e) \<le> x"
    using assms(1) by (simp only: p)
  moreover have "x < 2 powr (of_int (e + 1))"
    using assms(2) by (simp only: p)
  ultimately have "\<lfloor>log 2 x\<rfloor> = e"
    using pos by (subst floor_log_eq_powr_iff) simp_all
  with pos show ?thesis
    by (simp add: exponent_def)
qed

text \<open>The exponent by halving and doubling, for evaluation.\<close>

lemma exponent_code [code]:
  "exponent x =
     (if 2 \<le> x then exponent (x / 2) + 1
      else if 0 < x \<and> x < 1 then exponent (2 * x) - 1
      else 0)"
proof -
  consider "2 \<le> x" | "0 < x" "x < 1" | "x \<le> 0" | "1 \<le> x" "x < 2"
    by linarith
  then show ?thesis
  proof cases
    case 1
    then have "log 2 (x / 2) = log 2 x - 1"
      by (simp add: log_divide)
    with 1 show ?thesis
      by (simp add: exponent_def)
  next
    case 2
    then have "log 2 (2 * x) = 1 + log 2 x"
      by (simp add: log_mult)
    with 2 show ?thesis
      by (simp add: exponent_def)
  next
    case 3
    then show ?thesis
      by (simp add: exponent_def)
  next
    case 4
    then have "exponent x = 0"
      by (intro exponent_eqI) simp_all
    with 4 show ?thesis
      by simp
  qed
qed

lemma round_double_at:
  assumes "2 powi e \<le> \<bar>x\<bar>" and "\<bar>x\<bar> < 2 powi (e + 1)" and "- 1022 \<le> e"
  shows "round_double x =
           (let r = of_int (round_even (x / 2 powi (e - 52))) * 2 powi (e - 52)
            in if \<bar>r\<bar> < 2 ^ 1024 then Num r else if 0 < x then PosInf else NegInf)"
proof -
  have "exponent \<bar>x\<bar> = e"
    using assms(1,2) by (rule exponent_eqI)
  moreover have "(0::real) < 2 powi e"
    by simp
  with assms(1) have "0 < \<bar>x\<bar>"
    by linarith
  then have "x \<noteq> 0"
    by simp
  ultimately show ?thesis
    using assms(3) by (simp add: round_double_def max_def)
qed

lemma round_even_bounds: "\<lfloor>q\<rfloor> \<le> round_even q \<and> round_even q \<le> \<lfloor>q\<rfloor> + 1"
  by (simp add: round_even_def Let_def)

text \<open>A negative number between \<open>-1\<close> and the normal range rounds to a negative double.\<close>

lemma round_double_negative:
  assumes neg: "x < 0" and low: "2 powi (- 1022) \<le> - x" and high: "- x \<le> 1"
  shows "\<exists>r. round_double x = Num r \<and> r < 0"
proof -
  define e where "e = exponent \<bar>x\<bar>"
  define u :: real where "u = 2 powi (e - 52)"
  define q where "q = x / u"
  have ax: "\<bar>x\<bar> = - x" using neg by simp
  have eb: "2 powi e \<le> \<bar>x\<bar>" "\<bar>x\<bar> < 2 powi (e + 1)"
    using exponent_bounds [of "\<bar>x\<bar>"] neg by (simp_all add: e_def)
  have lt: "(2::real) powi (- 1022) < 2 powi (e + 1)"
    using low eb(2) ax by linarith
  have e_low: "- 1022 \<le> e"
  proof (rule ccontr)
    assume "\<not> - 1022 \<le> e"
    then have "e + 1 \<le> - 1022" by simp
    then have "(2::real) powi (e + 1) \<le> 2 powi (- 1022)"
      by (intro power_int_increasing) simp_all
    with lt show False by simp
  qed
  have le1: "(2::real) powi e \<le> 1"
    using eb(1) high ax by simp
  have e_high: "e \<le> 0"
  proof (rule ccontr)
    assume "\<not> e \<le> 0"
    then have "0 < e" by simp
    then have "(2::real) powi 0 < 2 powi e"
      by (intro power_int_strict_increasing) simp_all
    with le1 show False by simp
  qed
  have u_pos: "0 < u" by (simp add: u_def)
  have u_le: "u \<le> 1"
  proof -
    have "e - 52 \<le> 0" using e_high by simp
    then have "(2::real) powi (e - 52) \<le> 2 powi 0"
      by (intro power_int_increasing) simp_all
    then show ?thesis by (simp add: u_def)
  qed
  have ratio: "2 powi e / u = 2 ^ 52"
    by (simp add: u_def power_int_diff)
  have "q \<le> - (2 powi e / u)"
    using eb(1) ax u_pos by (simp add: q_def field_simps)
  then have q_le: "q \<le> - (2 ^ 52)"
    by (simp only: ratio)
  have fl: "of_int \<lfloor>q\<rfloor> \<le> q" "q < of_int \<lfloor>q\<rfloor> + 1"
    by linarith+
  define n where "n = round_even q"
  have nb: "real_of_int \<lfloor>q\<rfloor> \<le> of_int n" "real_of_int n \<le> of_int \<lfloor>q\<rfloor> + 1"
    using round_even_bounds [of q] by (simp_all add: n_def)
  have "q \<le> - 2"
    using q_le by simp
  then have n_neg: "real_of_int n < 0"
    using nb(2) fl(1) by linarith
  have n_low: "q - 1 < of_int n"
    using nb(1) fl(2) by linarith
  define r where "r = of_int n * u"
  have r_neg: "r < 0"
    using n_neg u_pos by (simp add: r_def mult_neg_pos)
  have "(q - 1) * u < r"
    using n_low u_pos by (simp add: r_def)
  moreover have "q * u = x"
    using u_pos by (simp add: q_def)
  ultimately have "x - u < r"
    by (simp add: algebra_simps)
  with r_neg high u_le have "\<bar>r\<bar> < 2"
    by simp
  also have "(2::real) \<le> 2 ^ 1024"
    by simp
  finally have small: "\<bar>r\<bar> < 2 ^ 1024" .
  have "round_double x = Num r"
    using round_double_at [OF eb e_low] small
    by (simp add: Let_def r_def n_def q_def u_def)
  with r_neg show ?thesis by blast
qed

lemma js_ge_not_lt: "js_ge x y \<Longrightarrow> \<not> js_lt x y"
  by (cases x; cases y) simp_all

section \<open>Point-in-time queries\<close>

text \<open>
  C3: on a non-empty list of stakes, \<^verbatim>\<open>getCurrentConviction\<close> is the decay formula
  evaluated from the checkpoint of the last element of the list to \<^verbatim>\<open>currentTime\<close>.
\<close>

theorem getCurrentConviction_last:
  "stakes \<noteq> [] \<Longrightarrow>
   getCurrentConviction stakes currentTime alpha =
     calculateConviction (currentTime - time (last stakes)) (conviction (last stakes))
       (totalTokensStaked (last stakes)) alpha"
  by (cases stakes) (simp_all add: getCurrentConviction_def)

theorem getCurrentConviction_last_witness:
  "getCurrentConviction [\<lparr>time = 0, totalTokensStaked = Num 100, conviction = Num 0\<rparr>] 10
     (Num (9 / 10)) =
   calculateConviction 10 (Num 0) (Num 100) (Num (9 / 10))"
  using getCurrentConviction_last
    [of "[\<lparr>time = 0, totalTokensStaked = Num 100, conviction = Num 0\<rparr>]" 10 "Num (9 / 10)"]
  by simp

text \<open>
  C6: \<^verbatim>\<open>getCurrentConviction\<close> of the empty list is \<open>0\<close>, and
  \<^verbatim>\<open>getCurrentConvictionByEntity\<close> is \<open>0\<close> when no event of the list belongs to the
  entity.
\<close>

theorem no_events_zero_conviction:
  "getCurrentConviction [] currentTime alpha = Num 0 \<and>
   ((\<forall>s \<in> set stakes. entity s \<noteq> ent) \<longrightarrow>
      getCurrentConvictionByEntity stakes ent currentTime' alpha' = Num 0)"
  by (auto simp add: getCurrentConviction_def getCurrentConvictionByEntity_def
        stakesByEntity_def filter_empty_conv)

theorem no_events_zero_conviction_witness:
  "getCurrentConviction ([] :: stake list) 7 (Num (9 / 10)) = Num 0 \<and>
   getCurrentConvictionByEntity
     [\<lparr>time = 3, totalTokensStaked = Num 40, conviction = Num 0,
       entity = ''alice'', tokensStaked = Num 40\<rparr>]
     ''bob'' 7 (Num (9 / 10)) = Num 0"
  using no_events_zero_conviction
    [of 7 "Num (9 / 10)"
        "[\<lparr>time = 3, totalTokensStaked = Num 40, conviction = Num 0,
           entity = ''alice'', tokensStaked = Num 40\<rparr>]"
        "''bob''" 7 "Num (9 / 10)"]
  by simp

section \<open>The decay formula\<close>

text \<open>
  C7: for \<open>alpha\<close> strictly between \<open>0\<close> and \<open>1\<close> and a finite amount, no elapsed time
  leaves the checkpoint conviction as it is.
\<close>

theorem calculateConviction_zero_time:
  "0 < a \<Longrightarrow> a < 1 \<Longrightarrow> calculateConviction 0 y0 (Num x) (Num a) = y0"
  by (cases y0) (simp_all add: calculateConviction_def js_sub_def signed_inf_def)

theorem calculateConviction_zero_time_witness:
  "calculateConviction 0 (Num 42) (Num 100) (Num (9 / 10)) = Num 42"
  using calculateConviction_zero_time [of "9 / 10" "Num 42" 100]
  by simp

section \<open>Threshold algebra: the results\<close>

lemma dbl_log_five_eighths: "\<exists>r. dbl_log (Num (5 / 8)) = Num r \<and> r < 0"
proof -
  have up: "ln (5 / 8 :: real) \<le> - (3 / 8)"
    using ln_le_minus_one [of "5 / 8 :: real"] by simp
  have "ln (8 / 5 :: real) \<le> 3 / 5"
    using ln_le_minus_one [of "8 / 5 :: real"] by simp
  moreover have "ln (5 / 8 :: real) = - ln (8 / 5)"
    by (simp add: ln_div)
  ultimately have low: "- (3 / 5) \<le> ln (5 / 8 :: real)"
    by simp
  have "\<exists>r. round_double (ln (5 / 8)) = Num r \<and> r < 0"
  proof (rule round_double_negative)
    show "ln (5 / 8 :: real) < 0" using up by simp
    have "(2::real) powi (- 1022) \<le> 2 powi 0"
      by (intro power_int_increasing) simp_all
    then show "2 powi (- 1022) \<le> - ln (5 / 8 :: real)" using up by simp
    show "- ln (5 / 8 :: real) \<le> 1" using low by simp
  qed
  then show ?thesis
    by (simp add: dbl_log_def)
qed

text \<open>
  C4: the threshold \<^verbatim>\<open>2.666666666666667\<close> is the double \<open>6004799503160662 / 2 ^ 51\<close>. With
  no conviction, amount \<open>1\<close> and \<^verbatim>\<open>alpha = 0.625\<close> the ceiling \<^verbatim>\<open>amount / (1 - alpha)\<close> is
  the double below it, \<^verbatim>\<open>2.6666666666666665\<close>, and the conviction is below the ceiling.
  But \<^verbatim>\<open>(a - 1) * y\<close> is half way between two doubles and rounds to \<open>-1\<close>, so the
  argument of the logarithm is \<open>0\<close> and \<^verbatim>\<open>getRemainingTimeToPass\<close> is positive infinity,
  not \<^verbatim>\<open>NaN\<close>.
\<close>

theorem getRemainingTimeToPass_rounds_to_infinity:
  "is_double (6004799503160662 / 2 ^ 51) \<and>
   getMaxConviction (Num 1) (Num (5 / 8)) = Num (6004799503160661 / 2 ^ 51) \<and>
   js_lt (getMaxConviction (Num 1) (Num (5 / 8))) (Num (6004799503160662 / 2 ^ 51)) \<and>
   js_lt (Num 0) (getMaxConviction (Num 1) (Num (5 / 8))) \<and>
   getRemainingTimeToPass (Num (6004799503160662 / 2 ^ 51)) (Num 0) (Num 1) (Num (5 / 8)) = PosInf"
proof -
  have y: "is_double (6004799503160662 / 2 ^ 51)"
    unfolding is_double_def
    by (subst round_double_at [of 1]) (simp_all add: round_even_def Let_def)
  have s1: "dbl_sub (Num 1) (Num (5 / 8)) = Num (3 / 8)"
    by (simp add: dbl_sub_def js_sub_def)
       (subst round_double_at [of "- 2"], simp_all add: round_even_def Let_def)
  have s2: "dbl_div (Num 1) (Num (3 / 8)) = Num (6004799503160661 / 2 ^ 51)"
    by (simp add: dbl_div_def)
       (subst round_double_at [of 1], simp_all add: round_even_def Let_def)
  have ceiling: "getMaxConviction (Num 1) (Num (5 / 8)) = Num (6004799503160661 / 2 ^ 51)"
    by (simp only: getMaxConviction_def Let_def s1 s2)
  have s3: "dbl_sub (Num (5 / 8)) (Num 1) = Num (- (3 / 8))"
    by (simp add: dbl_sub_def js_sub_def)
       (subst round_double_at [of "- 2"], simp_all add: round_even_def Let_def)
  have s4: "dbl_mul (Num (- (3 / 8))) (Num (6004799503160662 / 2 ^ 51)) = Num (- 1)"
    by (simp add: dbl_mul_def)
       (subst round_double_at [of 0], simp_all add: round_even_def Let_def)
  have s5: "dbl_add (Num (- 1)) (Num 1) = Num 0"
    by (simp add: dbl_add_def round_double_def)
  have s6: "dbl_mul (Num (- (3 / 8))) (Num 0) = Num 0"
    by (simp add: dbl_mul_def round_double_def)
  have s7: "dbl_add (Num 0) (Num 1) = Num 1"
    by (simp add: dbl_add_def)
       (subst round_double_at [of 0], simp_all add: round_even_def Let_def)
  have s8: "dbl_div (Num 0) (Num 1) = Num 0"
    by (simp add: dbl_div_def round_double_def)
  have s9: "dbl_log (Num 0) = NegInf"
    by (simp add: dbl_log_def)
  obtain r where r: "dbl_log (Num (5 / 8)) = Num r" "r < 0"
    using dbl_log_five_eighths by blast
  have s10: "dbl_div NegInf (Num r) = PosInf"
    using r(2) by (simp add: dbl_div_def signed_inf_def)
  have "getRemainingTimeToPass (Num (6004799503160662 / 2 ^ 51)) (Num 0) (Num 1) (Num (5 / 8)) =
          PosInf"
    by (simp only: getRemainingTimeToPass_def Let_def s3 s4 s5 s6 s7 s8 s9 r(1) s10)
  with y ceiling show ?thesis
    by simp
qed

text \<open>
  C5 (as the code has it): \<^verbatim>\<open>calculateThreshold\<close> is positive infinity whenever the
  share \<^verbatim>\<open>requested / funds\<close> is at least \<^verbatim>\<open>beta\<close>, and also when the share is \<^verbatim>\<open>NaN\<close>;
  when the share is below \<^verbatim>\<open>beta\<close> it is \<^verbatim>\<open>rho * supply / (1 - alpha) / (beta - share) ** 2\<close>
  as computed on doubles. So it is infinite exactly when the share is not below \<^verbatim>\<open>beta\<close>
  or that value is itself infinite.
\<close>

theorem calculateThreshold_infinite:
  "(js_ge (dbl_div requested funds) beta \<longrightarrow>
      calculateThreshold requested funds supply alpha beta rho = PosInf) \<and>
   (dbl_div requested funds = NaN \<longrightarrow>
      calculateThreshold requested funds supply alpha beta rho = PosInf) \<and>
   (js_lt (dbl_div requested funds) beta \<longrightarrow>
      calculateThreshold requested funds supply alpha beta rho =
        dbl_div (dbl_div (dbl_mul rho supply) (dbl_sub (Num 1) alpha))
          (dbl_pow (dbl_sub beta (dbl_div requested funds)) 2)) \<and>
   (calculateThreshold requested funds supply alpha beta rho = PosInf \<longleftrightarrow>
      \<not> js_lt (dbl_div requested funds) beta \<or>
      dbl_div (dbl_div (dbl_mul rho supply) (dbl_sub (Num 1) alpha))
        (dbl_pow (dbl_sub beta (dbl_div requested funds)) 2) = PosInf)"
  by (auto simp add: calculateThreshold_def Let_def dest: js_ge_not_lt)

theorem calculateThreshold_infinite_witness:
  "calculateThreshold (Num 50) (Num 100) (Num 1000) (Num (8106479329266893 / 2 ^ 53))
     (Num (3602879701896397 / 2 ^ 53)) (Num (5764607523034235 / 2 ^ 59)) = PosInf \<and>
   calculateThreshold (Num 1) (Num 8) (Num 1000) (Num (1 / 2)) (Num (1 / 4)) (Num (1 / 2)) =
     Num 64000"
proof -
  have share: "dbl_div (Num 50) (Num 100) = Num (1 / 2)"
    by (simp add: dbl_div_def)
       (subst round_double_at [of "- 1"], simp_all add: round_even_def Let_def)
  have "js_ge (dbl_div (Num 50) (Num 100)) (Num (3602879701896397 / 2 ^ 53))"
    by (simp add: share)
  then have a: "calculateThreshold (Num 50) (Num 100) (Num 1000) (Num (8106479329266893 / 2 ^ 53))
     (Num (3602879701896397 / 2 ^ 53)) (Num (5764607523034235 / 2 ^ 59)) = PosInf"
    using calculateThreshold_infinite [of "Num 50" "Num 100" "Num (3602879701896397 / 2 ^ 53)" "Num 1000"
        "Num (8106479329266893 / 2 ^ 53)" "Num (5764607523034235 / 2 ^ 59)"]
    by blast
  have s1: "dbl_div (Num 1) (Num 8) = Num (1 / 8)"
    by (simp add: dbl_div_def)
       (subst round_double_at [of "- 3"], simp_all add: round_even_def Let_def)
  have s2: "dbl_sub (Num (1 / 4)) (Num (1 / 8)) = Num (1 / 8)"
    by (simp add: dbl_sub_def js_sub_def)
       (subst round_double_at [of "- 3"], simp_all add: round_even_def Let_def)
  have s3: "dbl_pow (Num (1 / 8)) 2 = Num (1 / 64)"
    by (simp add: dbl_pow_def power2_eq_square)
       (subst round_double_at [of "- 6"], simp_all add: round_even_def Let_def)
  have s4: "dbl_mul (Num (1 / 2)) (Num 1000) = Num 500"
    by (simp add: dbl_mul_def)
       (subst round_double_at [of 8], simp_all add: round_even_def Let_def)
  have s5: "dbl_sub (Num 1) (Num (1 / 2)) = Num (1 / 2)"
    by (simp add: dbl_sub_def js_sub_def)
       (subst round_double_at [of "- 1"], simp_all add: round_even_def Let_def)
  have s6: "dbl_div (Num 500) (Num (1 / 2)) = Num 1000"
    by (simp add: dbl_div_def)
       (subst round_double_at [of 9], simp_all add: round_even_def Let_def)
  have s7: "dbl_div (Num 1000) (Num (1 / 64)) = Num 64000"
    by (simp add: dbl_div_def)
       (subst round_double_at [of 15], simp_all add: round_even_def Let_def)
  have "js_lt (dbl_div (Num 1) (Num 8)) (Num (1 / 4))"
    by (simp add: s1)
  then have "calculateThreshold (Num 1) (Num 8) (Num 1000) (Num (1 / 2)) (Num (1 / 4)) (Num (1 / 2)) =
        dbl_div (dbl_div (dbl_mul (Num (1 / 2)) (Num 1000)) (dbl_sub (Num 1) (Num (1 / 2))))
          (dbl_pow (dbl_sub (Num (1 / 4)) (dbl_div (Num 1) (Num 8))) 2)"
    using calculateThreshold_infinite [of "Num 1" "Num 8" "Num (1 / 4)" "Num 1000" "Num (1 / 2)" "Num (1 / 2)"]
    by blast
  then have b: "calculateThreshold (Num 1) (Num 8) (Num 1000) (Num (1 / 2)) (Num (1 / 4)) (Num (1 / 2)) =
     Num 64000"
    by (simp only: s1 s2 s3 s4 s5 s6 s7)
  from a b show ?thesis by simp
qed

text \<open>
  Without funds, a request of nothing has the share \<^verbatim>\<open>0 / 0\<close>, which is \<^verbatim>\<open>NaN\<close>: it is not
  below \<^verbatim>\<open>beta\<close>, so the threshold is infinite, and it is not at least \<^verbatim>\<open>beta\<close> either.
  And with \<^verbatim>\<open>alpha = 1\<close> the threshold of a share below \<^verbatim>\<open>beta\<close> is infinite.
\<close>

theorem calculateThreshold_infinite_counterexample:
  "\<not> (calculateThreshold (Num 0) (Num 0) (Num 1000) (Num (8106479329266893 / 2 ^ 53))
        (Num (3602879701896397 / 2 ^ 53)) (Num (5764607523034235 / 2 ^ 59)) = PosInf
      \<longleftrightarrow> js_ge (dbl_div (Num 0) (Num 0)) (Num (3602879701896397 / 2 ^ 53))) \<and>
   \<not> (calculateThreshold (Num 1) (Num 8) (Num 1000) (Num 1) (Num (1 / 4)) (Num (1 / 2)) = PosInf
      \<longleftrightarrow> js_ge (dbl_div (Num 1) (Num 8)) (Num (1 / 4)))"
proof -
  have nan: "dbl_div (Num 0) (Num 0) = NaN"
    by (simp add: dbl_div_def signed_inf_def)
  have a: "calculateThreshold (Num 0) (Num 0) (Num 1000) (Num (8106479329266893 / 2 ^ 53))
        (Num (3602879701896397 / 2 ^ 53)) (Num (5764607523034235 / 2 ^ 59)) = PosInf"
    by (simp add: calculateThreshold_def nan)
  have s1: "dbl_div (Num 1) (Num 8) = Num (1 / 8)"
    by (simp add: dbl_div_def)
       (subst round_double_at [of "- 3"], simp_all add: round_even_def Let_def)
  have s2: "dbl_sub (Num (1 / 4)) (Num (1 / 8)) = Num (1 / 8)"
    by (simp add: dbl_sub_def js_sub_def)
       (subst round_double_at [of "- 3"], simp_all add: round_even_def Let_def)
  have s3: "dbl_pow (Num (1 / 8)) 2 = Num (1 / 64)"
    by (simp add: dbl_pow_def power2_eq_square)
       (subst round_double_at [of "- 6"], simp_all add: round_even_def Let_def)
  have s4: "dbl_mul (Num (1 / 2)) (Num 1000) = Num 500"
    by (simp add: dbl_mul_def)
       (subst round_double_at [of 8], simp_all add: round_even_def Let_def)
  have s5: "dbl_sub (Num 1) (Num 1) = Num 0"
    by (simp add: dbl_sub_def js_sub_def round_double_def)
  have s6: "dbl_div (Num 500) (Num 0) = PosInf"
    by (simp add: dbl_div_def signed_inf_def)
  have s7: "dbl_div PosInf (Num (1 / 64)) = PosInf"
    by (simp add: dbl_div_def signed_inf_def)
  have lt: "js_lt (dbl_div (Num 1) (Num 8)) (Num (1 / 4))"
    by (simp add: s1)
  have b: "calculateThreshold (Num 1) (Num 8) (Num 1000) (Num 1) (Num (1 / 4)) (Num (1 / 2)) = PosInf"
    unfolding calculateThreshold_def Let_def using lt
    by (simp only: if_True s1 s2 s3 s4 s5 s6 s7)
  show ?thesis
    using a b by (simp add: nan s1)
qed




section \<open>The loops of the history sampling\<close>

lemma js_rem_zero_iff: "js_rem a b = Some 0 \<longleftrightarrow> b \<noteq> 0 \<and> b dvd a"
proof (cases "b = 0")
  case True
  then show ?thesis by (simp add: js_rem_def)
next
  case False
  have "\<bar>a\<bar> mod \<bar>b\<bar> = 0 \<longleftrightarrow> b dvd a"
    by (simp add: dvd_eq_mod_eq_0 [symmetric])
  moreover have "sgn a * (\<bar>a\<bar> mod \<bar>b\<bar>) = 0 \<longleftrightarrow> \<bar>a\<bar> mod \<bar>b\<bar> = 0"
    by (cases "a = 0") (auto simp: sgn_if)
  ultimately show ?thesis using False by (simp add: js_rem_def)
qed

lemma div_step:
  fixes u t :: int
  assumes "0 < u"
  shows "t div u = (t - 1) div u + (if u dvd t then 1 else 0)"
proof (cases "u dvd t")
  case True
  then obtain k where k: "t = u * k" by (auto simp: dvd_def)
  have eq: "t - 1 = u * (k - 1) + (u - 1)" using k by (simp add: algebra_simps)
  have "(t - 1) div u = k - 1"
    by (rule int_div_pos_eq [OF eq]) (use assms in auto)
  moreover have "t div u = k" using k assms by simp
  ultimately show ?thesis using True by simp
next
  case False
  then have r: "0 < t mod u" using assms
    by (metis dvd_eq_mod_eq_0 less_le pos_mod_sign)
  have eq: "t - 1 = u * (t div u) + (t mod u - 1)" by simp
  have b: "t mod u < u" using assms by simp
  have "(t - 1) div u = t div u"
    by (rule int_div_pos_eq [OF eq]) (use r b in simp_all)
  then show ?thesis using False by simp
qed

lemma consume_history [simp]: "history (consume rs t s) = history s"
  by (induction rs t s rule: consume.induct) (subst consume.simps, simp)

lemma tick_history:
  "history (tick rs alpha u t s) =
     (if u \<noteq> 0 \<and> u dvd t
      then history s @ [calculateConviction (timePassed s) (to_number (lastConv s)) (oldAmount s) alpha]
      else history s)"
  by (simp add: tick_def Let_def js_rem_zero_iff)

lemma for_loop_length:
  "0 < u \<Longrightarrow> t \<le> c + 1 \<Longrightarrow>
   length (history (for_loop rs alpha u c t s)) = length (history s) + nat (c div u - (t - 1) div u)"
proof (induction rs alpha u c t s rule: for_loop.induct)
  case (1 rs alpha u c t s)
  show ?case
  proof (cases "t \<le> c")
    case True
    have mono: "t div u \<le> c div u" using True "1.prems" by (simp add: zdiv_mono1)
    have "length (history (for_loop rs alpha u c t s)) =
          length (history (tick rs alpha u t s)) + nat (c div u - t div u)"
      using 1 True by (subst for_loop.simps) simp
    also have "\<dots> = length (history s) + nat (c div u - (t - 1) div u)"
      using "1.prems" mono div_step [of u t] by (auto simp: tick_history)
    finally show ?thesis .
  next
    case False
    with "1.prems" have "t = c + 1" by simp
    then show ?thesis by (subst for_loop.simps) simp
  qed
qed

lemma pad_zeros_snd: "snd (pad_zeros u t h) = max t 0"
  by (induction u t h rule: pad_zeros.induct) (subst pad_zeros.simps, simp)

lemma pad_zeros_length:
  "0 < u \<Longrightarrow> t \<le> 0 \<Longrightarrow>
   length (fst (pad_zeros u t h)) = length h + nat (- 1 - (t - 1) div u)"
proof (induction u t h rule: pad_zeros.induct)
  case (1 u t h)
  show ?case
  proof (cases "t < 0")
    case True
    have mono: "t div u \<le> (- 1) div u" using True "1.prems" by (intro zdiv_mono1) auto
    have m1: "(- 1) div u = - 1" using "1.prems" by (simp add: div_eq_minus1)
    show ?thesis
      using 1 True mono m1 div_step [of u t]
      by (subst pad_zeros.simps) (auto simp: js_rem_zero_iff)
  next
    case False
    with "1.prems" have "t = 0" by simp
    then show ?thesis using "1.prems" by (subst pad_zeros.simps) (simp add: div_eq_minus1)
  qed
qed

lemma init_state_history [simp]: "history (init_state old alpha t h) = h"
  by (simp add: init_state_def split: option.split)

lemma history_length_div:
  assumes "0 \<le> c" "0 < u"
  shows "length (getConvictionHistory stakes c alpha u) = nat (50 + c div u - (c - 2) div u)"
proof -
  define lo where "lo = c - 50 * u - 1"
  obtain h t0 where p: "pad_zeros u lo [] = (h, t0)" by (cases "pad_zeros u lo []")
  have t0: "t0 = max lo 0" using pad_zeros_snd [of u lo "[]"] p by simp
  have lo1: "(lo - 1) div u = (c - 2) div u - 50"
  proof -
    have e: "lo - 1 = (c - 2) + (- 50) * u" by (simp add: lo_def)
    show ?thesis unfolding e using assms by (subst div_mult_self1) auto
  qed
  have hl: "length h = nat (- 1 - (lo - 1) div u)" if "lo \<le> 0"
    using pad_zeros_length [of u lo "[]"] p that assms by simp
  have h0: "h = []" if "0 \<le> lo"
    using p that by (subst (asm) pad_zeros.simps) simp
  have le: "t0 \<le> c + 1" using assms t0 by (simp add: lo_def)
  have "length (getConvictionHistory stakes c alpha u) = length h + nat (c div u - (t0 - 1) div u)"
    by (simp add: getConvictionHistory_def lo_def[symmetric] p for_loop_length [OF assms(2) le])
  also have "\<dots> = nat (c div u - (lo - 1) div u)"
  proof (cases "lo \<le> 0")
    case True
    have a: "(lo - 1) div u \<le> (- 1) div u" using True assms by (intro zdiv_mono1) auto
    have b: "(-1) div u \<le> c div u" using assms by (intro zdiv_mono1) auto
    have m1: "(- 1) div u = - 1" using assms by (simp add: div_eq_minus1)
    from True have "t0 = 0" using t0 by simp
    then show ?thesis using hl True a b m1 by simp
  next
    case False
    then show ?thesis using h0 t0 by simp
  qed
  also have "\<dots> = nat (50 + c div u - (c - 2) div u)" by (simp add: lo1)
  finally show ?thesis .
qed

lemma consume_idle:
  "\<not> (ix s < length rs \<and> time (rs ! ix s) \<le> t) \<Longrightarrow> consume rs t s = s"
  by (subst consume.simps) auto

lemma consume_fired:
  "ix s < length rs \<Longrightarrow> time (rs ! ix s) \<le> t \<Longrightarrow>
   ix s < ix (consume rs t s) \<and> ix (consume rs t s) \<le> length rs \<and>
   oldAmount (consume rs t s) = totalTokensStaked (rs ! (ix (consume rs t s) - 1)) \<and>
   timePassed (consume rs t s) = 0 \<and>
   lastConv (consume rs t s) = spread_pop (history s)"
proof (induction rs t s rule: consume.induct)
  case (1 rs t s)
  let ?s' = "s\<lparr>oldAmount := totalTokensStaked (rs ! ix s), ix := ix s + 1,
                timePassed := 0, lastConv := spread_pop (history s)\<rparr>"
  have unfold: "consume rs t s = consume rs t ?s'"
    using "1.prems" by (subst consume.simps) simp
  show ?case
  proof (cases "ix ?s' < length rs \<and> time (rs ! ix ?s') \<le> t")
    case True
    with "1.IH" "1.prems" show ?thesis
      unfolding unfold by simp
  next
    case False
    then have "consume rs t ?s' = ?s'" by (rule consume_idle)
    with "1.prems" show ?thesis unfolding unfold by simp
  qed
qed

lemma consume_stops:
  "ix (consume rs t s) < length rs \<Longrightarrow> ix s \<le> length rs \<Longrightarrow> t < time (rs ! ix (consume rs t s))"
proof (induction rs t s rule: consume.induct)
  case (1 rs t s)
  show ?case
  proof (cases "ix s < length rs \<and> time (rs ! ix s) \<le> t")
    case True
    let ?s' = "s\<lparr>oldAmount := totalTokensStaked (rs ! ix s), ix := ix s + 1,
                timePassed := 0, lastConv := spread_pop (history s)\<rparr>"
    have unfold: "consume rs t s = consume rs t ?s'"
      using True by (subst consume.simps) simp
    from "1.IH" [OF True] "1.prems" True show ?thesis unfolding unfold by simp
  next
    case False
    then have "consume rs t s = s" by (rule consume_idle)
    with False "1.prems" show ?thesis by auto
  qed
qed

lemma for_loop_step:
  "t \<le> c \<Longrightarrow> for_loop rs alpha u c t s = for_loop rs alpha u c (t + 1) (tick rs alpha u t s)"
  by (subst for_loop.simps) simp

lemma for_loop_done: "c < t \<Longrightarrow> for_loop rs alpha u c t s = s"
  by (subst for_loop.simps) simp

lemma for_loop_invariant:
  assumes "P t s"
    and "t \<le> c + 1"
    and "\<And>k s. t \<le> k \<Longrightarrow> k \<le> c \<Longrightarrow> P k s \<Longrightarrow> P (k + 1) (tick rs alpha u k s)"
  shows "P (c + 1) (for_loop rs alpha u c t s)"
  using assms
proof (induction rs alpha u c t s rule: for_loop.induct)
  case (1 rs alpha u c t s)
  show ?case
  proof (cases "t \<le> c")
    case True
    have "P (c + 1) (for_loop rs alpha u c (t + 1) (tick rs alpha u t s))"
    proof (rule "1.IH" [OF True])
      show "P (t + 1) (tick rs alpha u t s)" using "1.prems" True by simp
      show "t + 1 \<le> c + 1" using True by simp
      show "\<And>k s. t + 1 \<le> k \<Longrightarrow> k \<le> c \<Longrightarrow> P k s \<Longrightarrow> P (k + 1) (tick rs alpha u k s)"
        using "1.prems"(3) by simp
    qed
    then show ?thesis using True by (simp add: for_loop_step)
  next
    case False
    with "1.prems" have "t = c + 1" by simp
    with "1.prems" show ?thesis by (simp add: for_loop_done)
  qed
qed

text \<open>Ticks at which nothing is sampled and nothing consumed only age the checkpoint.\<close>

lemma tick_quiet:
  "\<not> (u \<noteq> 0 \<and> u dvd t) \<Longrightarrow> \<not> (ix s < length rs \<and> time (rs ! ix s) \<le> t) \<Longrightarrow>
   tick rs alpha u t s = s\<lparr>timePassed := timePassed s + 1\<rparr>"
  by (simp add: tick_def js_rem_zero_iff consume_idle)

lemma for_loop_quiet:
  assumes "t1 \<le> t2"
    and "\<And>k. t1 \<le> k \<Longrightarrow> k < t2 \<Longrightarrow> \<not> (u \<noteq> 0 \<and> u dvd k)"
    and "ix s < length rs \<Longrightarrow> t2 \<le> time (rs ! ix s)"
  shows "for_loop rs alpha u (t2 - 1) t1 s = s\<lparr>timePassed := timePassed s + (t2 - t1)\<rparr>"
proof -
  have "(\<lambda>k s'. s' = s\<lparr>timePassed := timePassed s + (k - t1)\<rparr>) (t2 - 1 + 1)
          (for_loop rs alpha u (t2 - 1) t1 s)"
  proof (rule for_loop_invariant)
    show "s = s\<lparr>timePassed := timePassed s + (t1 - t1)\<rparr>" by simp
    show "t1 \<le> t2 - 1 + 1" using assms(1) by simp
  next
    fix k s'
    assume k: "t1 \<le> k" "k \<le> t2 - 1" and s': "s' = s\<lparr>timePassed := timePassed s + (k - t1)\<rparr>"
    have "\<not> (u \<noteq> 0 \<and> u dvd k)" using assms(2) k by simp
    moreover have "\<not> (ix s' < length rs \<and> time (rs ! ix s') \<le> k)"
      using assms(3) k s' by auto
    ultimately have "tick rs alpha u k s' = s'\<lparr>timePassed := timePassed s' + 1\<rparr>"
      by (rule tick_quiet)
    then show "tick rs alpha u k s' = s\<lparr>timePassed := timePassed s + (k + 1 - t1)\<rparr>"
      using s' by simp
  qed
  then show ?thesis by simp
qed

section \<open>History sampling: the results\<close>

lemma history_length_dvd:
  assumes "0 \<le> c" and "0 < u"
  shows "length (getConvictionHistory stakes c alpha u) =
           50 + (if u dvd c then 1 else 0) + (if u dvd c - 1 then 1 else 0)"
proof -
  have "c div u = (c - 2) div u + (if u dvd c - 1 then 1 else 0) + (if u dvd c then 1 else 0)"
    using div_step [OF assms(2), of c] div_step [OF assms(2), of "c - 1"] by simp
  then have n: "nat (50 + c div u - (c - 2) div u) =
               50 + (if u dvd c then 1 else 0) + (if u dvd c - 1 then 1 else 0)"
    by simp
  show ?thesis
    unfolding history_length_div [OF assms] by (rule n)
qed

text \<open>
  C1 (as the code has it): the history has one sample for every multiple of
  \<^verbatim>\<open>timeUnit\<close> among the ticks it walks. For a non-negative \<^verbatim>\<open>currentTime\<close> and a positive
  \<^verbatim>\<open>timeUnit\<close> such that \<^verbatim>\<open>currentTime - 1\<close> is not a multiple of \<^verbatim>\<open>timeUnit\<close>, these are
  \<open>51\<close> when \<^verbatim>\<open>currentTime\<close> is a multiple of \<^verbatim>\<open>timeUnit\<close> and \<open>50\<close> when it is not,
  whatever the stakes and \<^verbatim>\<open>alpha\<close> are: \<open>51\<close> for \<^verbatim>\<open>timeUnit = 5\<close> at the times \<open>0\<close>,
  \<open>10\<close> and \<open>100000\<close>.
\<close>

theorem getConvictionHistory_length:
  assumes "0 \<le> currentTime" and "0 < timeUnit" and "\<not> timeUnit dvd currentTime - 1"
  shows "length (getConvictionHistory stakes currentTime alpha timeUnit) =
           50 + (if timeUnit dvd currentTime then 1 else 0)"
  using assms by (simp add: history_length_dvd)

theorem getConvictionHistory_length_witness:
  "length (getConvictionHistory
             [\<lparr>time = 3, totalTokensStaked = Num 100, conviction = Num 0\<rparr>] 0 (Num (9 / 10)) 5) = 51 \<and>
   length (getConvictionHistory
             [\<lparr>time = 3, totalTokensStaked = Num 100, conviction = Num 0\<rparr>] 10 (Num (9 / 10)) 5) = 51 \<and>
   length (getConvictionHistory
             [\<lparr>time = 3, totalTokensStaked = Num 100, conviction = Num 0\<rparr>] 100000 (Num (9 / 10)) 5) = 51 \<and>
   length (getConvictionHistory
             [\<lparr>time = 3, totalTokensStaked = Num 100, conviction = Num 0\<rparr>] 2 (Num (9 / 10)) 5) = 50"
  using getConvictionHistory_length
    [of 0 5 "[\<lparr>time = 3, totalTokensStaked = Num 100, conviction = Num 0\<rparr>]" "Num (9 / 10)"]
    getConvictionHistory_length
    [of 10 5 "[\<lparr>time = 3, totalTokensStaked = Num 100, conviction = Num 0\<rparr>]" "Num (9 / 10)"]
    getConvictionHistory_length
    [of 100000 5 "[\<lparr>time = 3, totalTokensStaked = Num 100, conviction = Num 0\<rparr>]" "Num (9 / 10)"]
    getConvictionHistory_length
    [of 2 5 "[\<lparr>time = 3, totalTokensStaked = Num 100, conviction = Num 0\<rparr>]" "Num (9 / 10)"]
  by simp

text \<open>
  The walk starts one tick before \<^verbatim>\<open>currentTime - 50 * timeUnit\<close>, so with
  \<^verbatim>\<open>timeUnit = 1\<close> there are \<open>52\<close> samples, not \<open>51\<close>; and with \<^verbatim>\<open>timeUnit = 5\<close> there
  are \<open>50\<close> at \<^verbatim>\<open>currentTime = 2\<close>.
\<close>

theorem getConvictionHistory_length_counterexample:
  "length (getConvictionHistory ([] :: stake list) 0 (Num (9 / 10)) 1) = 52 \<and>
   length (getConvictionHistory ([] :: stake list) 2 (Num (9 / 10)) 5) = 50"
  using history_length_dvd [of 0 1 "[] :: stake list" "Num (9 / 10)"]
    history_length_dvd [of 2 5 "[] :: stake list" "Num (9 / 10)"]
  by simp

text \<open>
  C2: when the tick \<open>t\<close> consumes at least one recent stake, the state after the tick has
  the amount of the last stake consumed, an age of one tick (reset to \<open>0\<close>, then
  incremented at the end of the iteration) and, as checkpoint, the last element of the
  history (\<^verbatim>\<open>undefined\<close> when the history is still empty). So at the next multiple \<open>t'\<close>
  of \<^verbatim>\<open>timeUnit\<close>, with no stake consumed in between, the sample appended is the decay
  formula over \<open>t' - t\<close> ticks from that last element and the new amount.
\<close>

theorem stake_change_checkpoint:
  assumes fired: "ix s < length rs" "time (rs ! ix s) \<le> t"
    and s1: "s1 = tick rs alpha u t s"
  shows "ix s < ix s1 \<and> ix s1 \<le> length rs \<and>
         oldAmount s1 = totalTokensStaked (rs ! (ix s1 - 1)) \<and>
         timePassed s1 = 1 \<and>
         lastConv s1 = spread_pop (history s1) \<and>
         (\<forall>t'. t < t' \<and> u \<noteq> 0 \<and> u dvd t' \<and> (\<forall>k. t < k \<and> k < t' \<longrightarrow> \<not> u dvd k) \<and>
               (ix s1 < length rs \<longrightarrow> t' \<le> time (rs ! ix s1)) \<longrightarrow>
            history (tick rs alpha u t' (for_loop rs alpha u (t' - 1) (t + 1) s1)) =
              history s1 @
                [calculateConviction (t' - t) (to_number (spread_pop (history s1)))
                   (totalTokensStaked (rs ! (ix s1 - 1))) alpha])"
proof -
  define s0 where "s0 = (if js_rem t u = Some 0
                then s\<lparr>history := history s @
                       [calculateConviction (timePassed s) (to_number (lastConv s))
                          (oldAmount s) alpha]\<rparr>
                else s)"
  have s1': "s1 = (consume rs t s0)\<lparr>timePassed := timePassed (consume rs t s0) + 1\<rparr>"
    by (simp add: s1 tick_def s0_def Let_def)
  have ix0: "ix s0 = ix s" by (simp add: s0_def)
  have h1: "history s1 = history s0" by (simp add: s1')
  from consume_fired [of s0 rs t] fired ix0
  have c: "ix s0 < ix (consume rs t s0)" "ix (consume rs t s0) \<le> length rs"
    "oldAmount (consume rs t s0) = totalTokensStaked (rs ! (ix (consume rs t s0) - 1))"
    "timePassed (consume rs t s0) = 0" "lastConv (consume rs t s0) = spread_pop (history s0)"
    by simp_all
  have a: "ix s < ix s1" "ix s1 \<le> length rs"
    "oldAmount s1 = totalTokensStaked (rs ! (ix s1 - 1))" "timePassed s1 = 1"
    "lastConv s1 = spread_pop (history s1)"
    using c ix0 by (simp_all add: s1')
  have next_sample: "history (tick rs alpha u t' (for_loop rs alpha u (t' - 1) (t + 1) s1)) =
              history s1 @
                [calculateConviction (t' - t) (to_number (spread_pop (history s1)))
                   (totalTokensStaked (rs ! (ix s1 - 1))) alpha]"
    if t': "t < t'" "u \<noteq> 0" "u dvd t'" "\<forall>k. t < k \<and> k < t' \<longrightarrow> \<not> u dvd k"
       "ix s1 < length rs \<longrightarrow> t' \<le> time (rs ! ix s1)" for t'
  proof -
    have "for_loop rs alpha u (t' - 1) (t + 1) s1 = s1\<lparr>timePassed := timePassed s1 + (t' - (t + 1))\<rparr>"
      using t' by (intro for_loop_quiet) auto
    then show ?thesis using a t' by (simp add: tick_history)
  qed
  show ?thesis using a next_sample by blast
qed

theorem stake_change_checkpoint_witness:
  "history
     (tick [\<lparr>time = 7, totalTokensStaked = Num 100, conviction = Num 0\<rparr>] (Num (1 / 2)) 5 10
        (for_loop [\<lparr>time = 7, totalTokensStaked = Num 100, conviction = Num 0\<rparr>]
           (Num (1 / 2)) 5 9 8
           (tick [\<lparr>time = 7, totalTokensStaked = Num 100, conviction = Num 0\<rparr>] (Num (1 / 2)) 5 7
              \<lparr>history = [Num 10], oldAmount = Num 0, lastConv = Some (Num 10),
                timePassed = 2, ix = 0\<rparr>))) =
   [Num 10, calculateConviction 3 (Num 10) (Num 100) (Num (1 / 2))] \<and>
   calculateConviction 2 (Num 10) (Num 0) (Num (1 / 2)) = Num (5 / 2)"
proof -
  let ?rs = "[\<lparr>time = 7, totalTokensStaked = Num 100, conviction = Num 0\<rparr>]"
  let ?s = "\<lparr>history = [Num 10], oldAmount = Num 0, lastConv = Some (Num 10),
             timePassed = 2, ix = 0\<rparr>"
  let ?s1 = "tick ?rs (Num (1 / 2)) 5 7 ?s"
  have fired: "ix ?s < length ?rs" "time (?rs ! ix ?s) \<le> 7"
    by simp_all
  note c = stake_change_checkpoint [OF fired refl, of "Num (1 / 2)" 5]
  have h: "history ?s1 = [Num 10]"
    by (simp add: tick_history)
  have i: "ix ?s1 = 1"
    using c by simp
  have gap: "\<forall>k::int. 7 < k \<and> k < 10 \<longrightarrow> \<not> 5 dvd k"
    by presburger
  have pre: "(7::int) < 10 \<and> (5::int) \<noteq> 0 \<and> (5::int) dvd 10 \<and>
             (\<forall>k::int. 7 < k \<and> k < 10 \<longrightarrow> \<not> 5 dvd k) \<and>
             (ix ?s1 < length ?rs \<longrightarrow> 10 \<le> time (?rs ! ix ?s1))"
    using gap i by simp
  have "history (tick ?rs (Num (1 / 2)) 5 10 (for_loop ?rs (Num (1 / 2)) 5 (10 - 1) (7 + 1) ?s1)) =
          history ?s1 @
            [calculateConviction (10 - 7) (to_number (spread_pop (history ?s1)))
               (totalTokensStaked (?rs ! (ix ?s1 - 1))) (Num (1 / 2))]"
    using c pre by blast
  moreover have "calculateConviction 2 (Num 10) (Num 0) (Num (1 / 2)) = Num (5 / 2)"
    by (simp add: calculateConviction_def js_sub_def power2_eq_square)
  ultimately show ?thesis
    by (simp add: h i)
qed

section \<open>A stake consumed before the first sample\<close>

lemma spread_pop_all_NaN:
  "to_number (spread_pop h) = NaN" if "\<forall>x \<in> set h. x = NaN"
proof (cases h)
  case Nil
  then show ?thesis by simp
next
  case (Cons x xs)
  then have "last h \<in> set h" by (intro last_in_set) simp
  with that have "last h = NaN" by blast
  with Cons show ?thesis by simp
qed

lemma getConvictionHistory_window:
  assumes "0 \<le> c - 50 * u - 1"
  shows "getConvictionHistory stakes c alpha u =
           history (for_loop (filter (\<lambda>st. c - 50 * u - 1 < time st) stakes) alpha u c
                      (c - 50 * u - 1)
                      (init_state (filter (\<lambda>st. time st \<le> c - 50 * u - 1) stakes) alpha
                         (c - 50 * u - 1) []))"
proof -
  have "pad_zeros u (c - 50 * u - 1) [] = ([], c - 50 * u - 1)"
    using assms by (subst pad_zeros.simps) simp
  then show ?thesis
    by (simp add: getConvictionHistory_def)
qed

text \<open>What a tick keeps when a stake is consumed before the first sample.\<close>

lemma tick_poisoned:
  assumes rs: "rs \<noteq> []" and first: "time (rs ! 0) < m"
    and gap: "\<And>k. t0 \<le> k \<Longrightarrow> k < m \<Longrightarrow> \<not> u dvd k"
    and k: "t0 \<le> k"
    and inv: "(\<forall>x \<in> set (history s). x = NaN) \<and>
              (ix s = 0 \<and> k \<le> time (rs ! 0) \<or> to_number (lastConv s) = NaN)"
  shows "(\<forall>x \<in> set (history (tick rs alpha u k s)). x = NaN) \<and>
         (ix (tick rs alpha u k s) = 0 \<and> k + 1 \<le> time (rs ! 0) \<or>
          to_number (lastConv (tick rs alpha u k s)) = NaN)"
proof -
  define s0 where "s0 = (if js_rem k u = Some 0
                then s\<lparr>history := history s @
                       [calculateConviction (timePassed s) (to_number (lastConv s))
                          (oldAmount s) alpha]\<rparr>
                else s)"
  have tk: "tick rs alpha u k s = (consume rs k s0)\<lparr>timePassed := timePassed (consume rs k s0) + 1\<rparr>"
    by (simp add: tick_def s0_def Let_def)
  have same: "ix s0 = ix s" "lastConv s0 = lastConv s"
    by (simp_all add: s0_def)
  have h0: "\<forall>x \<in> set (history s0). x = NaN"
  proof (cases "u \<noteq> 0 \<and> u dvd k")
    case True
    then have "\<not> k < m" using gap k by blast
    with first inv have "to_number (lastConv s) = NaN" by auto
    with inv True show ?thesis by (simp add: s0_def js_rem_zero_iff)
  next
    case False
    with inv show ?thesis by (auto simp add: s0_def js_rem_zero_iff)
  qed
  show ?thesis
  proof (cases "ix s0 < length rs \<and> time (rs ! ix s0) \<le> k")
    case True
    then have "lastConv (consume rs k s0) = spread_pop (history s0)"
      using consume_fired [of s0 rs k] by simp
    with h0 show ?thesis
      by (simp add: tk spread_pop_all_NaN)
  next
    case False
    then have "consume rs k s0 = s0" by (rule consume_idle)
    with False h0 inv same rs show ?thesis
      by (auto simp add: tk)
  qed
qed

lemma tick_before_first_sample:
  assumes rs: "rs \<noteq> []"
    and nodvd: "\<not> u dvd k"
    and inv: "history s = [] \<and> (ix s = 0 \<and> k \<le> time (rs ! 0) \<or> lastConv s = None)"
  shows "history (tick rs alpha u k s) = [] \<and>
         (ix (tick rs alpha u k s) = 0 \<and> k + 1 \<le> time (rs ! 0) \<or>
          lastConv (tick rs alpha u k s) = None)"
proof -
  have tk: "tick rs alpha u k s = (consume rs k s)\<lparr>timePassed := timePassed (consume rs k s) + 1\<rparr>"
    using nodvd by (simp add: tick_def js_rem_zero_iff Let_def)
  show ?thesis
  proof (cases "ix s < length rs \<and> time (rs ! ix s) \<le> k")
    case True
    then have "lastConv (consume rs k s) = spread_pop (history s)"
      using consume_fired [of s rs k] by simp
    with inv show ?thesis by (simp add: tk)
  next
    case False
    then have "consume rs k s = s" by (rule consume_idle)
    with False inv rs show ?thesis by (auto simp add: tk)
  qed
qed

lemma first_recent_stake:
  assumes sorted: "sorted (map time stakes)"
    and e: "e \<in> set stakes" "t0 < time e"
  shows "filter (\<lambda>st. t0 < time st) stakes \<noteq> [] \<and>
         time (filter (\<lambda>st. t0 < time st) stakes ! 0) \<le> time e"
proof -
  let ?rs = "filter (\<lambda>st. t0 < time st) stakes"
  have mem: "e \<in> set ?rs" using e by simp
  then have "0 < length ?rs" by (rule length_pos_if_in_set)
  then have ne: "?rs \<noteq> []" by blast
  have "sorted (map time ?rs)" using sorted by (rule sorted_filter)
  moreover obtain j where j: "j < length ?rs" "?rs ! j = e"
    using mem unfolding in_set_conv_nth by blast
  ultimately have "map time ?rs ! 0 \<le> map time ?rs ! j"
    by (intro sorted_nth_mono) auto
  with j ne show ?thesis by (simp add: nth_map)
qed

text \<open>
  C9: let \<^verbatim>\<open>initTime = currentTime - 50 * timeUnit - 1\<close> be non-negative and not a multiple
  of the positive \<^verbatim>\<open>timeUnit\<close>, and let the stakes, ordered by time, have an event \<open>e\<close>
  after \<^verbatim>\<open>initTime\<close> and before the first multiple of \<^verbatim>\<open>timeUnit\<close> from \<^verbatim>\<open>initTime\<close> on.
  Then once the loop has run the tick of \<open>e\<close> the history is still empty and the
  checkpoint is \<^verbatim>\<open>undefined\<close>, the value popped from the empty history; and the history
  returned is not empty and every sample of it is \<^verbatim>\<open>NaN\<close>.
\<close>

theorem checkpoint_from_empty_history:
  assumes u: "0 < u"
    and init: "0 \<le> c - 50 * u - 1" "\<not> u dvd c - 50 * u - 1"
    and sorted: "sorted (map time stakes)"
    and e: "e \<in> set stakes" "c - 50 * u - 1 < time e"
           "time e < c - 50 * u - 1 - (c - 50 * u - 1) mod u + u"
  shows "lastConv
           (for_loop (filter (\<lambda>st. c - 50 * u - 1 < time st) stakes) alpha u (time e)
              (c - 50 * u - 1)
              (init_state (filter (\<lambda>st. time st \<le> c - 50 * u - 1) stakes) alpha
                 (c - 50 * u - 1) [])) = None \<and>
         history
           (for_loop (filter (\<lambda>st. c - 50 * u - 1 < time st) stakes) alpha u (time e)
              (c - 50 * u - 1)
              (init_state (filter (\<lambda>st. time st \<le> c - 50 * u - 1) stakes) alpha
                 (c - 50 * u - 1) [])) = [] \<and>
         getConvictionHistory stakes c alpha u \<noteq> [] \<and>
         (\<forall>x \<in> set (getConvictionHistory stakes c alpha u). x = NaN)"
proof -
  define t0 where "t0 = c - 50 * u - 1"
  define m where "m = t0 - t0 mod u + u"
  define rs where "rs = filter (\<lambda>st. t0 < time st) stakes"
  define s0 where "s0 = init_state (filter (\<lambda>st. time st \<le> t0) stakes) alpha t0 []"
  have "t0 mod u \<noteq> 0"
    using init(2) by (simp add: t0_def dvd_eq_mod_eq_0)
  moreover have "0 \<le> t0 mod u" "t0 mod u < u"
    using u by simp_all
  ultimately have r: "0 < t0 mod u" "t0 mod u < u"
    by linarith+
  have gap: "\<not> u dvd k" if "t0 \<le> k" "k < m" for k
  proof
    assume "u dvd k"
    then obtain q where q: "k = u * q" by (auto simp: dvd_def)
    have t: "t0 = u * (t0 div u) + t0 mod u" by simp
    have "u * (t0 div u) < u * q"
      using that(1) q r(1) t by linarith
    with u have lower: "t0 div u < q"
      by (simp add: mult_less_cancel_left_pos)
    have "m = u * (t0 div u + 1)"
      unfolding m_def by (simp add: minus_mod_eq_mult_div algebra_simps)
    with that(2) q have "u * q < u * (t0 div u + 1)"
      by simp
    with u have "q < t0 div u + 1"
      by (simp only: mult_less_cancel_left_pos)
    with lower show False by simp
  qed
  from first_recent_stake [OF sorted e(1), of t0] e(2,3)
  have rs: "rs \<noteq> []" and first: "time (rs ! 0) \<le> time e" and em: "time e < m"
    by (simp_all add: rs_def t0_def m_def)
  have s0: "history s0 = []" "ix s0 = 0" "lastConv s0 \<noteq> None"
    by (simp_all add: s0_def init_state_def split: option.split)
  have t0_first: "t0 \<le> time (rs ! 0)"
  proof -
    have "rs ! 0 \<in> set rs" using rs by simp
    then show ?thesis by (simp add: rs_def)
  qed
  have early: "(\<lambda>k s. history s = [] \<and> (ix s = 0 \<and> k \<le> time (rs ! 0) \<or> lastConv s = None))
                 (time e + 1) (for_loop rs alpha u (time e) t0 s0)"
  proof (rule for_loop_invariant)
    show "history s0 = [] \<and> (ix s0 = 0 \<and> t0 \<le> time (rs ! 0) \<or> lastConv s0 = None)"
      using s0 t0_first by simp
    show "t0 \<le> time e + 1" using e(2) by (simp add: t0_def)
  next
    fix k and s :: loop_state
    assume k: "t0 \<le> k" "k \<le> time e"
      and inv: "history s = [] \<and> (ix s = 0 \<and> k \<le> time (rs ! 0) \<or> lastConv s = None)"
    have nd: "\<not> u dvd k" using gap k em by simp
    from rs nd inv show "history (tick rs alpha u k s) = [] \<and>
         (ix (tick rs alpha u k s) = 0 \<and> k + 1 \<le> time (rs ! 0) \<or>
          lastConv (tick rs alpha u k s) = None)"
      by (rule tick_before_first_sample)
  qed
  have all: "(\<lambda>k s. (\<forall>x \<in> set (history s). x = NaN) \<and>
                (ix s = 0 \<and> k \<le> time (rs ! 0) \<or> to_number (lastConv s) = NaN))
               (c + 1) (for_loop rs alpha u c t0 s0)"
  proof (rule for_loop_invariant)
    show "(\<forall>x \<in> set (history s0). x = NaN) \<and>
          (ix s0 = 0 \<and> t0 \<le> time (rs ! 0) \<or> to_number (lastConv s0) = NaN)"
      using s0 t0_first by simp
    show "t0 \<le> c + 1" using u by (simp add: t0_def)
  next
    fix k and s :: loop_state
    assume k: "t0 \<le> k" "k \<le> c"
      and inv: "(\<forall>x \<in> set (history s). x = NaN) \<and>
                (ix s = 0 \<and> k \<le> time (rs ! 0) \<or> to_number (lastConv s) = NaN)"
    from first em have "time (rs ! 0) < m" by simp
    from tick_poisoned [OF rs this gap k(1) inv]
    show "(\<forall>x \<in> set (history (tick rs alpha u k s)). x = NaN) \<and>
         (ix (tick rs alpha u k s) = 0 \<and> k + 1 \<le> time (rs ! 0) \<or>
          to_number (lastConv (tick rs alpha u k s)) = NaN)"
      by simp
  qed
  have win: "getConvictionHistory stakes c alpha u = history (for_loop rs alpha u c t0 s0)"
    using getConvictionHistory_window [of c u stakes alpha] init(1)
    by (simp add: rs_def s0_def t0_def)
  have "0 \<le> c" using init(1) u by simp
  then have "0 < length (getConvictionHistory stakes c alpha u)"
    using history_length_dvd [of c u stakes alpha] u by simp
  with early all first show ?thesis
    unfolding win by (simp add: rs_def s0_def t0_def)
qed

theorem checkpoint_from_empty_history_witness:
  "set (getConvictionHistory [\<lparr>time = 8, totalTokensStaked = Num 100, conviction = Num 0\<rparr>]
          257 (Num (1 / 2)) 5) = {NaN}"
proof -
  let ?e = "\<lparr>time = 8, totalTokensStaked = Num 100, conviction = Num 0\<rparr>"
  have "getConvictionHistory [?e] 257 (Num (1 / 2)) 5 \<noteq> [] \<and>
        (\<forall>x \<in> set (getConvictionHistory [?e] 257 (Num (1 / 2)) 5). x = NaN)"
    using checkpoint_from_empty_history [of 5 257 "[?e]" ?e "Num (1 / 2)"]
    by simp
  then show ?thesis
    by (cases "getConvictionHistory [?e] 257 (Num (1 / 2)) 5") auto
qed

section \<open>Stores: what a call writes\<close>

lemma extends_refl [simp]: "extends st st"
  by (simp add: extends_def)

lemma extends_trans: "extends st1 st2 \<Longrightarrow> extends st2 st3 \<Longrightarrow> extends st1 st3"
proof -
  assume a: "extends st1 st2" and b: "extends st2 st3"
  then have len: "length st1 \<le> length st2" "length st2 \<le> length st3"
    by (simp_all add: extends_def)
  have "take (length st1) st3 = take (length st1) (take (length st2) st3)"
    using len by (simp add: min_def)
  also have "\<dots> = st1" using a b by (simp add: extends_def)
  finally show ?thesis using len by (simp add: extends_def)
qed

lemma extends_nth: "extends st st' \<Longrightarrow> a < length st \<Longrightarrow> st' ! a = st ! a"
  by (metis extends_def nth_take)

lemma extends_length: "extends st st' \<Longrightarrow> length st \<le> length st'"
  by (simp add: extends_def)

lemma extends_append [simp]: "extends st (st @ xs)"
  by (simp add: extends_def)

lemma extends_update_fresh:
  "extends st0 st \<Longrightarrow> length st0 \<le> a \<Longrightarrow> extends st0 (st[a := x])"
  by (simp add: extends_def)

lemma alloc_fresh: "alloc xs st = (a, st') \<Longrightarrow> a = length st \<and> st' = st @ [xs]"
  by (auto simp add: alloc_def)

lemma spread_fresh: "spread b st = (a, st') \<Longrightarrow> a = length st \<and> st' = st @ [st ! b]"
  by (auto simp add: spread_def alloc_def)

lemma filter_array_fresh:
  "filter_array p b st = (a, st') \<Longrightarrow> a = length st \<and> st' = st @ [filter p (st ! b)]"
  by (auto simp add: filter_array_def alloc_def)

lemma pop_store: "pop a st = (x, st') \<Longrightarrow> x = spread_pop (st ! a) \<and> st' = st[a := butlast (st ! a)]"
  by (auto simp add: pop_def)

lemma getCurrentConviction_st_result:
  "fst (getCurrentConviction_st stakes currentTime alpha objs) =
     getCurrentConviction (objs ! stakes) currentTime alpha"
  by (simp add: getCurrentConviction_st_def getCurrentConviction_def spread_def alloc_def pop_def)

lemma getCurrentConviction_st_extends:
  "extends objs (snd (getCurrentConviction_st stakes currentTime alpha objs))"
  by (simp add: getCurrentConviction_st_def spread_def alloc_def pop_def extends_def)

lemma convictionFromStakes_st_result:
  "convictionFromStakes_st stakes alpha objs = (convictionFromStakes (objs ! stakes) alpha, objs)"
  by (simp add: convictionFromStakes_st_def convictionFromStakes_def split: prod.split)

lemma stakesByEntity_st_result:
  assumes "stakesByEntity_st stakes ent (evs, sts) = (a, (evs', sts'))"
  shows "a = length sts \<and> sts' = sts @ [stakesByEntity (evs ! stakes) ent] \<and>
         evs' = evs @ [filter (\<lambda>s. ent = entity s) (evs ! stakes)]"
  using assms
  by (auto simp add: stakesByEntity_st_def stakesByEntity_def filter_array_def alloc_def)

lemma getCurrentConvictionByEntity_st_result:
  "fst (getCurrentConvictionByEntity_st stakes ent currentTime alpha (evs, sts)) =
     getCurrentConvictionByEntity (evs ! stakes) ent currentTime alpha"
  by (simp add: getCurrentConvictionByEntity_st_def getCurrentConvictionByEntity_def
      stakesByEntity_st_def filter_array_def alloc_def convictionFromStakes_st_result
      stakesByEntity_def Let_def)

lemma getCurrentConvictionByEntity_st_extends:
  "extends evs (fst (snd (getCurrentConvictionByEntity_st stakes ent currentTime alpha (evs, sts))))"
  by (simp add: getCurrentConvictionByEntity_st_def 
      stakesByEntity_st_def filter_array_def alloc_def convictionFromStakes_st_result
       Let_def)

text \<open>A \<^verbatim>\<open>pop\<close> on the array itself, not on a copy, does change it.\<close>

lemma pop_in_place:
  "a < length st \<Longrightarrow> st ! a \<noteq> [] \<Longrightarrow> length (snd (pop a st) ! a) < length (st ! a)"
  by (simp add: pop_def)

section \<open>Stores: the loops compute what the loops on lists compute\<close>

lemma loop_state_of_simps [simp]:
  "history (loop_state_of hist (v, nums)) = nums ! hist"
  "oldAmount (loop_state_of hist (v, nums)) = var_oldAmount v"
  "lastConv (loop_state_of hist (v, nums)) = var_lastConv v"
  "timePassed (loop_state_of hist (v, nums)) = var_timePassed v"
  "ix (loop_state_of hist (v, nums)) = var_i v"
  by (simp_all add: loop_state_of_def)

lemma push_store:
  "hist < length nums \<Longrightarrow>
   length (push hist x nums) = length nums \<and> push hist x nums ! hist = nums ! hist @ [x]"
  by (simp add: push_def)

lemma push_extends:
  "extends nums0 nums \<Longrightarrow> length nums0 \<le> hist \<Longrightarrow> extends nums0 (push hist x nums)"
  by (simp add: push_def extends_update_fresh)

lemma copy_pop_store:
  assumes "hist < length nums"
  shows "pop (length nums) (nums @ [nums ! hist]) =
           (spread_pop (nums ! hist), nums @ [butlast (nums ! hist)])"
  using assms by (simp add: pop_def)

lemma consume_st_refines:
  assumes "hist < length (snd vn)"
  shows "loop_state_of hist (consume_st objs r hist t vn) =
           consume (objs ! r) t (loop_state_of hist vn) \<and>
         extends (snd vn) (snd (consume_st objs r hist t vn))"
  using assms
proof (induction objs r hist t vn rule: consume_st.induct)
  case (1 objs r hist t vn)
  obtain v nums where vn: "vn = (v, nums)" by (cases vn)
  with "1.prems" have hist: "hist < length nums" by simp
  show ?case
  proof (cases "var_i v < length (objs ! r) \<and> time (objs ! r ! var_i v) \<le> t")
    case True
    let ?v' = "v\<lparr>var_oldAmount := totalTokensStaked (objs ! r ! var_i v),
                  var_i := var_i v + 1, var_timePassed := 0,
                  var_lastConv := spread_pop (nums ! hist)\<rparr>"
    let ?nums' = "nums @ [butlast (nums ! hist)]"
    have step: "consume_st objs r hist t vn = consume_st objs r hist t (?v', ?nums')"
      using True hist
      by (subst consume_st.simps) (simp add: vn spread_def alloc_def copy_pop_store)
    have p1: "(v, nums) = vn"
      by (simp add: vn)
    have p2: "(length nums, nums @ [nums ! hist]) = spread hist nums"
      by (simp add: spread_def alloc_def)
    have p3: "(spread_pop (nums ! hist), ?nums') = pop (length nums) (nums @ [nums ! hist])"
      using hist by (simp add: copy_pop_store)
    have p4: "hist < length (snd (?v', ?nums'))"
      using hist by simp
    have ih: "loop_state_of hist (consume_st objs r hist t (?v', ?nums')) =
                consume (objs ! r) t (loop_state_of hist (?v', ?nums')) \<and>
              extends ?nums' (snd (consume_st objs r hist t (?v', ?nums')))"
      using "1.IH" [OF p1 True refl p2 refl p3 p4] by (simp only: snd_conv)
    have abs: "loop_state_of hist (?v', ?nums') =
                 (loop_state_of hist vn)
                   \<lparr>oldAmount := totalTokensStaked (objs ! r ! ix (loop_state_of hist vn)),
                     ix := ix (loop_state_of hist vn) + 1, timePassed := 0,
                     lastConv := spread_pop (history (loop_state_of hist vn))\<rparr>"
      using hist by (simp add: loop_state_of_def vn nth_append)
    have pure: "consume (objs ! r) t (loop_state_of hist vn) =
            consume (objs ! r) t (loop_state_of hist (?v', ?nums'))"
      using True unfolding abs by (subst consume.simps) (simp add: vn)
    have "extends nums ?nums'" by simp
    from this ih [THEN conjunct2]
    have "extends nums (snd (consume_st objs r hist t (?v', ?nums')))"
      by (rule extends_trans)
    with ih [THEN conjunct1] show ?thesis
      unfolding step pure by (simp add: vn)
  next
    case False
    then have "consume_st objs r hist t vn = vn"
      by (subst consume_st.simps) (auto simp add: vn)
    moreover from False have "consume (objs ! r) t (loop_state_of hist vn) = loop_state_of hist vn"
      by (intro consume_idle) (simp add: vn)
    ultimately show ?thesis by simp
  qed
qed

lemma tick_st_refines:
  assumes "hist < length (snd vn)"
  shows "loop_state_of hist (tick_st objs r hist alpha u t vn) =
           tick (objs ! r) alpha u t (loop_state_of hist vn) \<and>
         length (snd vn) \<le> length (snd (tick_st objs r hist alpha u t vn))"
proof -
  obtain v nums where vn: "vn = (v, nums)" by (cases vn)
  with assms have hist: "hist < length nums" by simp
  define nums1 where "nums1 = (if js_rem t u = Some 0
                      then push hist
                             (calculateConviction (var_timePassed v) (to_number (var_lastConv v))
                                (var_oldAmount v) alpha) nums
                      else nums)"
  define s1 where "s1 = (if js_rem t u = Some 0
                then (loop_state_of hist vn)\<lparr>history := history (loop_state_of hist vn) @
                       [calculateConviction (timePassed (loop_state_of hist vn))
                          (to_number (lastConv (loop_state_of hist vn)))
                          (oldAmount (loop_state_of hist vn)) alpha]\<rparr>
                else loop_state_of hist vn)"
  have len1: "length nums1 = length nums"
    by (simp add: nums1_def push_def)
  have abs1: "loop_state_of hist (v, nums1) = s1"
    using hist by (simp add: nums1_def s1_def vn loop_state_of_def push_def)
  obtain v2 nums2 where c: "consume_st objs r hist t (v, nums1) = (v2, nums2)"
    by (cases "consume_st objs r hist t (v, nums1)")
  from consume_st_refines [of hist "(v, nums1)" objs r t] hist len1 c abs1
  have r: "loop_state_of hist (v2, nums2) = consume (objs ! r) t s1" "extends nums1 nums2"
    by simp_all
  have tk: "tick_st objs r hist alpha u t vn = (v2\<lparr>var_timePassed := var_timePassed v2 + 1\<rparr>, nums2)"
    by (simp add: tick_st_def vn nums1_def[symmetric] c)
  have "tick (objs ! r) alpha u t (loop_state_of hist vn) =
          (consume (objs ! r) t s1)\<lparr>timePassed := timePassed (consume (objs ! r) t s1) + 1\<rparr>"
    by (simp add: tick_def s1_def Let_def)
  also have "\<dots> = loop_state_of hist (v2\<lparr>var_timePassed := var_timePassed v2 + 1\<rparr>, nums2)"
    unfolding r(1) [symmetric] by (simp add: loop_state_of_def)
  finally show ?thesis
    using extends_length [OF r(2)] len1 unfolding tk by (simp add: vn)
qed

lemma for_loop_st_refines:
  assumes "hist < length (snd vn)"
  shows "loop_state_of hist (for_loop_st objs r hist alpha u c t vn) =
           for_loop (objs ! r) alpha u c t (loop_state_of hist vn)"
  using assms
proof (induction objs r hist alpha u c t vn rule: for_loop_st.induct)
  case (1 objs r hist alpha u c t vn)
  show ?case
  proof (cases "t \<le> c")
    case True
    from tick_st_refines [OF "1.prems", of objs r alpha u t]
    have tk: "loop_state_of hist (tick_st objs r hist alpha u t vn) =
                tick (objs ! r) alpha u t (loop_state_of hist vn)"
      and len: "hist < length (snd (tick_st objs r hist alpha u t vn))"
      using "1.prems" by simp_all
    have "loop_state_of hist (for_loop_st objs r hist alpha u c t vn) =
            loop_state_of hist (for_loop_st objs r hist alpha u c (t + 1)
                                  (tick_st objs r hist alpha u t vn))"
      using True by (subst for_loop_st.simps) simp
    also have "\<dots> = for_loop (objs ! r) alpha u c (t + 1)
                       (loop_state_of hist (tick_st objs r hist alpha u t vn))"
      using True len by (rule "1.IH")
    also have "\<dots> = for_loop (objs ! r) alpha u c t (loop_state_of hist vn)"
      using True by (simp add: tk for_loop_step)
    finally show ?thesis .
  next
    case False
    then show ?thesis
      by (subst for_loop_st.simps) (simp add: for_loop_done)
  qed
qed

lemma pad_zeros_st_refines:
  assumes "hist < length nums"
  shows "length (fst (pad_zeros_st u t hist nums)) = length nums \<and>
         (fst (pad_zeros_st u t hist nums) ! hist, snd (pad_zeros_st u t hist nums)) =
           pad_zeros u t (nums ! hist)"
  using assms
proof (induction u t hist nums rule: pad_zeros_st.induct)
  case (1 u t hist nums)
  show ?case
  proof (cases "t < 0")
    case True
    let ?nums' = "if js_rem t u = Some 0 then push hist (Num 0) nums else nums"
    have len: "length ?nums' = length nums" by (simp add: push_def)
    have nth: "?nums' ! hist = (if js_rem t u = Some 0 then nums ! hist @ [Num 0] else nums ! hist)"
      using "1.prems" by (simp add: push_def)
    have unf: "pad_zeros_st u t hist nums = pad_zeros_st u (t + 1) hist ?nums'"
      using True by (subst pad_zeros_st.simps) simp
    have unf': "pad_zeros u t (nums ! hist) = pad_zeros u (t + 1) (?nums' ! hist)"
      using True unfolding nth by (subst pad_zeros.simps) simp
    from "1.IH" [OF True] "1.prems" len show ?thesis
      unfolding unf unf' by simp
  next
    case False
    then show ?thesis
      by (subst pad_zeros_st.simps, subst pad_zeros_st.simps, subst pad_zeros_st.simps,
          subst pad_zeros.simps) simp
  qed
qed

lemma getConvictionHistory_st_result:
  assumes stakes: "stakes < length objs"
    and run: "getConvictionHistory_st stakes c alpha u (objs, nums) = (hist, (objs', nums'))"
  shows "nums' ! hist = getConvictionHistory (objs ! stakes) c alpha u \<and> extends objs objs'"
proof -
  let ?t0 = "c - 50 * u - 1"
  let ?nums1 = "nums @ [[]]"
  obtain nums2 initTime where pad: "pad_zeros_st u ?t0 (length nums) ?nums1 = (nums2, initTime)"
    by (cases "pad_zeros_st u ?t0 (length nums) ?nums1")
  from pad_zeros_st_refines [of "length nums" ?nums1 u ?t0] pad
  have len2: "length nums2 = length nums + 1"
    and pz: "pad_zeros u ?t0 [] = (nums2 ! length nums, initTime)"
    by simp_all
  let ?old = "filter (\<lambda>st. time st \<le> initTime) (objs ! stakes)"
  let ?recent = "filter (\<lambda>st. initTime < time st) (objs ! stakes)"
  let ?objs5 = "objs @ [objs ! stakes, ?old, objs ! stakes, ?recent, ?old]"
  let ?objs6 = "objs @ [objs ! stakes, ?old, objs ! stakes, ?recent, butlast ?old]"
  have steps: "spread stakes objs = (length objs, objs @ [objs ! stakes])"
    "filter_array (\<lambda>st. time st \<le> initTime) (length objs) (objs @ [objs ! stakes]) =
       (length objs + 1, objs @ [objs ! stakes, ?old])"
    "spread stakes (objs @ [objs ! stakes, ?old]) =
       (length objs + 2, objs @ [objs ! stakes, ?old, objs ! stakes])"
    "filter_array (\<lambda>st. initTime < time st) (length objs + 2)
       (objs @ [objs ! stakes, ?old, objs ! stakes]) =
       (length objs + 3, objs @ [objs ! stakes, ?old, objs ! stakes, ?recent])"
    "spread (length objs + 1) (objs @ [objs ! stakes, ?old, objs ! stakes, ?recent]) =
       (length objs + 4, ?objs5)"
    "pop (length objs + 4) ?objs5 = (spread_pop ?old, ?objs6)"
    using stakes
    by (simp_all add: spread_def filter_array_def alloc_def pop_def nth_append
          list_update_append eval_nat_numeral)
  have al: "alloc [] nums = (length nums, nums @ [[]])"
    by (simp add: alloc_def)
  have recent: "?objs6 ! (length objs + 3) = ?recent"
    by (simp add: nth_append)
  obtain amt conv lastTime where trip:
    "(case spread_pop ?old of
        Some st \<Rightarrow> (totalTokensStaked st, conviction st, time st)
      | None \<Rightarrow> (Num 0, Num 0, 0)) = (amt, conv, lastTime)"
    by (cases "case spread_pop ?old of
        Some st \<Rightarrow> (totalTokensStaked st, conviction st, time st)
      | None \<Rightarrow> (Num 0, Num 0, 0)") auto
  define v0 where "v0 = \<lparr>var_oldAmount = amt,
                   var_lastConv = Some (calculateConviction (initTime - lastTime) conv amt alpha),
                   var_timePassed = 0, var_i = 0\<rparr>"
  have abs0: "loop_state_of (length nums) (v0, nums2) =
                init_state ?old alpha initTime (nums2 ! length nums)"
    by (simp add: v0_def loop_state_of_def init_state_def trip)
  obtain v nums3 where loop:
    "for_loop_st ?objs6 (length objs + 3) (length nums) alpha u c initTime (v0, nums2) = (v, nums3)"
    by (cases "for_loop_st ?objs6 (length objs + 3) (length nums) alpha u c initTime (v0, nums2)")
  from for_loop_st_refines [of "length nums" "(v0, nums2)" ?objs6 "length objs + 3" alpha u c initTime]
  have abs: "loop_state_of (length nums) (v, nums3) =
               for_loop ?recent alpha u c initTime
                 (init_state ?old alpha initTime (nums2 ! length nums))"
    using len2 unfolding loop abs0 recent by simp
  have res: "getConvictionHistory_st stakes c alpha u (objs, nums) = (length nums, (?objs6, nums3))"
    unfolding getConvictionHistory_st_def
    by (simp only: prod.case Let_def al, simp only: prod.case pad, simp only: prod.case steps,
        simp only: prod.case trip, simp only: v0_def [symmetric], simp only: prod.case loop)
  have pure: "getConvictionHistory (objs ! stakes) c alpha u =
          history (for_loop ?recent alpha u c initTime
                 (init_state ?old alpha initTime (nums2 ! length nums)))"
    by (simp add: getConvictionHistory_def pz)
  have "nums3 ! length nums = history (loop_state_of (length nums) (v, nums3))"
    by simp
  also have "\<dots> = getConvictionHistory (objs ! stakes) c alpha u"
    by (simp only: abs pure)
  finally have "nums3 ! length nums = getConvictionHistory (objs ! stakes) c alpha u" .
  moreover have "extends objs ?objs6"
    by simp
  moreover from run have "hist = length nums" "objs' = ?objs6" "nums' = nums3"
    unfolding res by simp_all
  ultimately show ?thesis
    by simp
qed

lemma getConvictionHistory_st_frame:
  assumes "stakes < length objs"
  shows "extends objs (fst (snd (getConvictionHistory_st stakes c alpha u (objs, nums))))"
proof -
  obtain hist objs' nums' where
    run: "getConvictionHistory_st stakes c alpha u (objs, nums) = (hist, (objs', nums'))"
    by (cases "getConvictionHistory_st stakes c alpha u (objs, nums)") auto
  from getConvictionHistory_st_result [OF assms run] show ?thesis
    by (simp add: run)
qed

lemma getConvictionHistoryByEntity_st_result:
  assumes "stakes < length evs"
    and run: "getConvictionHistoryByEntity_st stakes ent tm alpha u (evs, sts, nums) =
                (hist, (evs', sts', nums'))"
  shows "nums' ! hist = getConvictionHistoryByEntity (evs ! stakes) ent tm alpha u \<and>
         extends evs evs' \<and> extends sts sts'"
proof -
  obtain a evs1 sts1 where by_entity: "stakesByEntity_st stakes ent (evs, sts) = (a, (evs1, sts1))"
    by (cases "stakesByEntity_st stakes ent (evs, sts)") auto
  from stakesByEntity_st_result [OF by_entity]
  have a: "a = length sts" "sts1 = sts @ [stakesByEntity (evs ! stakes) ent]"
    and evs1: "evs1 = evs @ [filter (\<lambda>s. ent = entity s) (evs ! stakes)]"
    by simp_all
  obtain h sts2 nums1 where
    inner: "getConvictionHistory_st a tm alpha u (sts1, nums) = (h, (sts2, nums1))"
    by (cases "getConvictionHistory_st a tm alpha u (sts1, nums)") auto
  have valid: "a < length sts1" using a by simp
  from getConvictionHistory_st_result [OF valid inner]
  have r: "nums1 ! h = getConvictionHistory (sts1 ! a) tm alpha u" "extends sts1 sts2"
    by simp_all
  have "extends sts sts1" using a by simp
  with r(2) have ext: "extends sts sts2" by (rule extends_trans [rotated])
  from run have "hist = h" "evs' = evs1" "sts' = sts2" "nums' = nums1"
    by (simp_all add: getConvictionHistoryByEntity_st_def by_entity inner)
  with r(1) a evs1 ext show ?thesis
    by (simp add: getConvictionHistoryByEntity_def)
qed

text \<open>
  C10: no function changes the array of stakes it is given. In the stores after a call
  of \<^verbatim>\<open>getCurrentConviction\<close>, \<^verbatim>\<open>getCurrentConvictionByEntity\<close>,
  \<^verbatim>\<open>getConvictionHistory\<close>, \<^verbatim>\<open>getConvictionHistoryByEntity\<close>, \<^verbatim>\<open>convictionFromStakes\<close> or
  \<^verbatim>\<open>stakesByEntity\<close>, the array at the address passed in has the contents it had before:
  every \<^verbatim>\<open>pop\<close> is on a fresh copy and every \<^verbatim>\<open>filter\<close> and \<^verbatim>\<open>map\<close> makes a new array.
\<close>

theorem input_array_unchanged:
  assumes stakes: "stakes < length objs" and events: "events < length evs"
  shows "snd (getCurrentConviction_st stakes currentTime alpha objs) ! stakes = objs ! stakes \<and>
         fst (snd (getCurrentConvictionByEntity_st events ent currentTime alpha (evs, sts))) ! events =
           evs ! events \<and>
         fst (snd (getConvictionHistory_st stakes currentTime alpha timeUnit (objs, nums))) ! stakes =
           objs ! stakes \<and>
         fst (snd (getConvictionHistoryByEntity_st events ent currentTime alpha timeUnit
                     (evs, sts, nums))) ! events = evs ! events \<and>
         snd (convictionFromStakes_st stakes alpha objs) ! stakes = objs ! stakes \<and>
         fst (snd (stakesByEntity_st events ent (evs, sts))) ! events = evs ! events"
proof (intro conjI)
  show "snd (getCurrentConviction_st stakes currentTime alpha objs) ! stakes = objs ! stakes"
    using getCurrentConviction_st_extends stakes by (rule extends_nth)
  show "fst (snd (getCurrentConvictionByEntity_st events ent currentTime alpha (evs, sts))) ! events =
          evs ! events"
    using getCurrentConvictionByEntity_st_extends events by (rule extends_nth)
  show "fst (snd (getConvictionHistory_st stakes currentTime alpha timeUnit (objs, nums))) ! stakes =
          objs ! stakes"
    using getConvictionHistory_st_frame [OF stakes] stakes by (rule extends_nth)
  show "fst (snd (getConvictionHistoryByEntity_st events ent currentTime alpha timeUnit
                    (evs, sts, nums))) ! events = evs ! events"
  proof -
    obtain hist evs' sts' nums' where
      run: "getConvictionHistoryByEntity_st events ent currentTime alpha timeUnit (evs, sts, nums) =
              (hist, (evs', sts', nums'))"
      by (cases "getConvictionHistoryByEntity_st events ent currentTime alpha timeUnit
                   (evs, sts, nums)") auto
    from getConvictionHistoryByEntity_st_result [OF events run] have "extends evs evs'"
      by simp
    then have "evs' ! events = evs ! events"
      using events by (rule extends_nth)
    then show ?thesis by (simp add: run)
  qed
  show "snd (convictionFromStakes_st stakes alpha objs) ! stakes = objs ! stakes"
    by (simp add: convictionFromStakes_st_result)
  show "fst (snd (stakesByEntity_st events ent (evs, sts))) ! events = evs ! events"
    using events
    by (simp add: stakesByEntity_st_def filter_array_def alloc_def nth_append)
qed

theorem input_array_unchanged_witness:
  "snd (getCurrentConviction_st 0 10 (Num (9 / 10))
          [[\<lparr>time = 0, totalTokensStaked = Num 100, conviction = Num 0\<rparr>]]) ! 0 =
     [\<lparr>time = 0, totalTokensStaked = Num 100, conviction = Num 0\<rparr>] \<and>
   fst (snd (getConvictionHistory_st 0 10 (Num (9 / 10)) 5
               ([[\<lparr>time = 0, totalTokensStaked = Num 100, conviction = Num 0\<rparr>]], []))) ! 0 =
     [\<lparr>time = 0, totalTokensStaked = Num 100, conviction = Num 0\<rparr>] \<and>
   fst (snd (getConvictionHistoryByEntity_st 0 ''alice'' 10 (Num (9 / 10)) 5
               ([[\<lparr>time = 3, totalTokensStaked = Num 40, conviction = Num 0,
                    entity = ''alice'', tokensStaked = Num 40\<rparr>]], [], []))) ! 0 =
     [\<lparr>time = 3, totalTokensStaked = Num 40, conviction = Num 0,
        entity = ''alice'', tokensStaked = Num 40\<rparr>]"
  using input_array_unchanged
    [of 0 "[[\<lparr>time = 0, totalTokensStaked = Num 100, conviction = Num 0\<rparr>]]"
        0 "[[\<lparr>time = 3, totalTokensStaked = Num 40, conviction = Num 0,
               entity = ''alice'', tokensStaked = Num 40\<rparr>]]"
        10 "Num (9 / 10)" "''alice''" "[]" 5 "[]"]
  by simp

end
